theory Spec2Isabelle
  imports Main "HOL-Library.Word"
begin

section \<open>Data model\<close>

text \<open>
  The relayer's types package declares the data the processor and the listeners work on.
  Domains are unsigned 32-bit integers, raw messages are byte strings. Time stamps
  (\<open>Created\<close>, \<open>Updated\<close>), log output, the ten second sleeps and the mutex around the
  state map are left out of the model: no function below branches on them.
\<close>

type_synonym Domain = "32 word"
type_synonym bytes = "8 word list"

text \<open>
  Modelled from the spec: the declaration of the status enumeration is in the types
  package; the spec lists the statuses Created, Pending, Filtered, Attested, Complete.
\<close>

datatype Status = Created | Pending | Filtered | Attested | Complete

text \<open>
  Modelled from the spec: the declaration of MessageState is in the types package; the
  fields are those that \<open>txToMessageState\<close> fills in and \<open>StartProcessor\<close> assigns.
\<close>

record MessageState =
  IrisLookupId :: string
  Status :: Status
  Attestation :: string
  SourceDomain :: Domain
  DestDomain :: Domain
  SourceTxHash :: string
  MsgSentBytes :: bytes
  DestinationCaller :: bytes
  Nonce :: "64 word"

text \<open>
  Modelled from the spec: the declaration of TxState is in the types package; a TxState is
  the source transaction hash and the messages parsed from that transaction, in order.
\<close>

record TxState =
  TxHash :: string
  Msgs :: "MessageState list"

text \<open>
  Modelled from the spec: the attestation client is in the circle package; its answer has
  a status and an attestation, and the processor reads both.
\<close>

record AttestationResponse =
  RespAttestation :: string
  RespStatus :: string

text \<open>
  Modelled from the spec: the configuration is declared in the types package; the
  processor reads its map of enabled routes, from a source domain to the list of the
  destination domains.
\<close>

record Config =
  EnabledRoutes :: "Domain \<rightharpoonup> Domain list"

text \<open>
  Modelled from the spec: the chain adapter is an interface of the types package. The
  filters call \<open>IsDestinationCaller\<close>; \<open>Broadcast\<close> talks to the destination
  chain, and its outcome is a parameter of each processing pass (see below).
\<close>

record Chain =
  Name :: string
  IsDestinationCaller :: "bytes \<Rightarrow> bool"

type_synonym Registry = "Domain \<rightharpoonup> Chain"

section \<open>The processor (cmd/process.go)\<close>

subsection \<open>Filters\<close>

text \<open>The loop over the enabled destinations of a source domain.\<close>

fun routeLoop :: "Domain list \<Rightarrow> Domain \<Rightarrow> bool" where
  "routeLoop [] dest = True"
| "routeLoop (dd # val) dest = (if dd = dest then False else routeLoop val dest)"

definition FilterDisabledCCTPRoutes :: "Config \<Rightarrow> MessageState \<Rightarrow> bool" where
  "FilterDisabledCCTPRoutes cfg msg =
     (case EnabledRoutes cfg (SourceDomain msg) of
        None \<Rightarrow> True
      | Some val \<Rightarrow> routeLoop val (DestDomain msg))"

definition filterInvalidDestinationCallers :: "Registry \<Rightarrow> MessageState \<Rightarrow> bool" where
  "filterInvalidDestinationCallers registeredDomains msg =
     (case registeredDomains (DestDomain msg) of
        None \<Rightarrow> True
      | Some chain \<Rightarrow>
          (if IsDestinationCaller chain (DestinationCaller msg) then False else True))"

subsection \<open>One pass over a transaction\<close>

text \<open>
  The messages of a TxState are pointers; the processor updates them in place and keeps
  some of them in \<open>broadcastMsgs\<close>. The model addresses a message by its position in
  \<open>tx.Msgs\<close>: \<open>msgs\<close> is the current content of the messages, \<open>broadcastMsgs\<close> maps a
  destination domain to the positions appended for it (an association list in
  insertion order; a missing key reads as the empty slice). Every call of the
  attestation service and of a chain's Broadcast is recorded in \<open>calls\<close>.
\<close>

datatype Call =
  CallCheckAttestation nat
| CallBroadcast Domain "nat list"

record LoopState =
  msgs :: "MessageState list"
  broadcastMsgs :: "(Domain \<times> nat list) list"
  requeue :: bool
  calls :: "Call list"

definition lookupMsgs :: "(Domain \<times> nat list) list \<Rightarrow> Domain \<Rightarrow> nat list" where
  "lookupMsgs bm d = (case map_of bm d of None \<Rightarrow> [] | Some l \<Rightarrow> l)"

fun appendMsg :: "(Domain \<times> nat list) list \<Rightarrow> Domain \<Rightarrow> nat \<Rightarrow> (Domain \<times> nat list) list" where
  "appendMsg [] d i = [(d, [i])]"
| "appendMsg ((d', l) # bm) d i =
     (if d' = d then (d', l @ [i]) # bm else (d', l) # appendMsg bm d i)"

definition setStatus :: "LoopState \<Rightarrow> nat \<Rightarrow> Status \<Rightarrow> LoopState" where
  "setStatus s i st = s\<lparr>msgs := (msgs s)[i := (msgs s ! i)\<lparr>Status := st\<rparr>]\<rparr>"

text \<open>
  The attest step: the body of \<open>if msg.Status == Created || msg.Status == Pending\<close>,
  given the response of CheckAttestation (\<open>None\<close> is the nil response).
\<close>

definition attestStep :: "AttestationResponse option \<Rightarrow> LoopState \<Rightarrow> nat \<Rightarrow> LoopState" where
  "attestStep response s i =
     (let msg = msgs s ! i in
      case response of
        Some r \<Rightarrow>
          if Status msg = Created \<and> RespStatus r = ''pending_confirmations''
          then (setStatus s i Pending)\<lparr>requeue := True\<rparr>
          else if RespStatus r = ''pending_confirmations''
          then s\<lparr>requeue := True\<rparr>
          else if RespStatus r = ''complete''
          then s\<lparr>msgs := (msgs s)[i := msg\<lparr>Status := Attested, Attestation := RespAttestation r\<rparr>],
                 broadcastMsgs := appendMsg (broadcastMsgs s) (DestDomain msg) i\<rparr>
          else s
      | None \<Rightarrow> s\<lparr>requeue := True\<rparr>)"

text \<open>
  The body of the loop over \<open>tx.Msgs\<close> for the message at position \<open>i\<close>. The answer
  of the attestation service to the call made for position \<open>i\<close> in this pass is
  \<open>att i\<close>; at most one call is made per message and pass.
\<close>

definition processMsg ::
  "Config \<Rightarrow> Registry \<Rightarrow> (nat \<Rightarrow> AttestationResponse option) \<Rightarrow> LoopState \<Rightarrow> nat \<Rightarrow> LoopState" where
  "processMsg cfg registeredDomains att s i =
     (let s1 = (if FilterDisabledCCTPRoutes cfg (msgs s ! i) \<or>
                   filterInvalidDestinationCallers registeredDomains (msgs s ! i)
                then setStatus s i Filtered else s)
      in if Status (msgs s1 ! i) = Created \<or> Status (msgs s1 ! i) = Pending
         then attestStep (att i) (s1\<lparr>calls := calls s1 @ [CallCheckAttestation i]\<rparr>) i
         else s1)"

text \<open>
  The loop over \<open>broadcastMsgs\<close>. Go iterates a map in no fixed order; the model takes
  the insertion order. \<open>bc domain ms\<close> tells whether the Broadcast call of this pass for
  \<open>domain\<close> with the messages \<open>ms\<close> returns an error; a domain is a key at most once, so
  at most one call is made per domain and pass.
\<close>

fun broadcastLoop ::
  "Registry \<Rightarrow> (Domain \<Rightarrow> MessageState list \<Rightarrow> bool) \<Rightarrow> (Domain \<times> nat list) list \<Rightarrow> LoopState \<Rightarrow> LoopState" where
  "broadcastLoop registeredDomains bc [] s = s"
| "broadcastLoop registeredDomains bc ((domain, idxs) # rest) s =
     (case registeredDomains domain of
        None \<Rightarrow> broadcastLoop registeredDomains bc rest s
      | Some chain \<Rightarrow>
          (let s' = s\<lparr>calls := calls s @ [CallBroadcast domain idxs]\<rparr> in
           if bc domain (map (\<lambda>i. msgs s ! i) idxs)
           then broadcastLoop registeredDomains bc rest (s'\<lparr>requeue := True\<rparr>)
           else broadcastLoop registeredDomains bc rest
                  (foldl (\<lambda>t i. setStatus t i Complete) s' idxs)))"

text \<open>
  One pass of the worker over the transaction it works on: the message loop, then the
  broadcast loop. The result holds the updated messages, the requeue flag and the calls
  made.
\<close>

definition processTx ::
  "Config \<Rightarrow> Registry \<Rightarrow> (nat \<Rightarrow> AttestationResponse option) \<Rightarrow>
   (Domain \<Rightarrow> MessageState list \<Rightarrow> bool) \<Rightarrow> TxState \<Rightarrow> LoopState" where
  "processTx cfg registeredDomains att bc tx =
     (let s = foldl (processMsg cfg registeredDomains att)
                \<lparr>msgs = Msgs tx, broadcastMsgs = [], requeue = False, calls = []\<rparr>
                [0 ..< length (Msgs tx)]
      in broadcastLoop registeredDomains bc (broadcastMsgs s) s)"

text \<open>
  The worker's state: the state map and the processing queue. A pass takes the first
  TxState of the queue (\<open>None\<close>: the queue is empty and the worker blocks), loads the
  stored TxState of that hash or stores the dequeued one with every status set to
  Created, processes it, and puts it back at the end of the queue when requeue is set.
  The state map holds a pointer to the TxState that is processed, so the map sees the
  updates.
\<close>

record Worker =
  State :: "string \<rightharpoonup> TxState"
  processingQueue :: "TxState list"

definition LookupKey :: "string \<Rightarrow> string" where
  "LookupKey sourceTxHash = sourceTxHash"

definition StartProcessor_pass ::
  "Config \<Rightarrow> Registry \<Rightarrow> (nat \<Rightarrow> AttestationResponse option) \<Rightarrow>
   (Domain \<Rightarrow> MessageState list \<Rightarrow> bool) \<Rightarrow> Worker \<Rightarrow> (Worker \<times> Call list) option" where
  "StartProcessor_pass cfg registeredDomains att bc w =
     (case processingQueue w of
        [] \<Rightarrow> None
      | dequeuedTx # queue \<Rightarrow>
          (let key = LookupKey (TxHash dequeuedTx);
               tx = (case State w key of
                       Some t \<Rightarrow> t
                     | None \<Rightarrow> dequeuedTx\<lparr>Msgs := map (\<lambda>msg. msg\<lparr>Status := Created\<rparr>) (Msgs dequeuedTx)\<rparr>);
               s = processTx cfg registeredDomains att bc tx;
               tx' = tx\<lparr>Msgs := msgs s\<rparr>
           in Some (\<lparr>State = (State w)(key \<mapsto> tx'),
                     processingQueue = (if requeue s then queue @ [tx'] else queue)\<rparr>,
                    calls s)))"


text \<open>
  A TxState that is requeued comes back to the worker and is processed again. \<open>passes\<close>
  runs the passes of one TxState one after the other; each pass has its own answers of
  the attestation service and of the chains.
\<close>

fun passes ::
  "Config \<Rightarrow> Registry \<Rightarrow>
   ((nat \<Rightarrow> AttestationResponse option) \<times> (Domain \<Rightarrow> MessageState list \<Rightarrow> bool)) list \<Rightarrow>
   TxState \<Rightarrow> TxState" where
  "passes cfg registeredDomains [] tx = tx"
| "passes cfg registeredDomains ((att, bc) # env) tx =
     passes cfg registeredDomains env (tx\<lparr>Msgs := msgs (processTx cfg registeredDomains att bc tx)\<rparr>)"

text \<open>
  The worker itself, pass after pass, each pass with its own answers of the attestation
  service and of the chains; on an empty queue the worker waits and the run ends here.
\<close>

fun runWorker ::
  "Config \<Rightarrow> Registry \<Rightarrow>
   ((nat \<Rightarrow> AttestationResponse option) \<times> (Domain \<Rightarrow> MessageState list \<Rightarrow> bool)) list \<Rightarrow>
   Worker \<Rightarrow> Worker" where
  "runWorker cfg registeredDomains [] w = w"
| "runWorker cfg registeredDomains ((att, bc) # env) w =
     (case StartProcessor_pass cfg registeredDomains att bc w of
        None \<Rightarrow> w
      | Some (w', cs) \<Rightarrow> runWorker cfg registeredDomains env w')"

subsection \<open>Notions used in the proofs\<close>

text \<open>
  Every message in the state map whose route is not enabled (the source domain is not a
  key of EnabledRoutes, or the destination is not in its list) has the status Filtered.
\<close>

definition storeFiltered :: "Config \<Rightarrow> Worker \<Rightarrow> bool" where
  "storeFiltered cfg w \<longleftrightarrow>
     (\<forall>h tx. State w h = Some tx \<longrightarrow>
        (\<forall>m \<in> set (Msgs tx).
           (EnabledRoutes cfg (SourceDomain m) = None \<or>
            (\<exists>val. EnabledRoutes cfg (SourceDomain m) = Some val \<and> DestDomain m \<notin> set val))
           \<longrightarrow> Status m = Filtered))"

text \<open>The source and destination domain of a message.\<close>

definition route :: "MessageState \<Rightarrow> Domain \<times> Domain" where
  "route m = (SourceDomain m, DestDomain m)"


text \<open>The positions held in \<open>broadcastMsgs\<close>, for any destination domain.\<close>

definition bmPositions :: "(Domain \<times> nat list) list \<Rightarrow> nat set" where
  "bmPositions bm = set (concat (map snd bm))"

text \<open>A message that a filter rejects, or that has been marked Filtered before.\<close>

definition filtered :: "Config \<Rightarrow> Registry \<Rightarrow> MessageState \<Rightarrow> bool" where
  "filtered cfg reg m \<longleftrightarrow>
     FilterDisabledCCTPRoutes cfg m \<or> filterInvalidDestinationCallers reg m \<or> Status m = Filtered"

text \<open>No call so far concerns position \<open>k\<close>, and \<open>k\<close> is not kept for broadcast.\<close>

definition untouched :: "nat \<Rightarrow> LoopState \<Rightarrow> bool" where
  "untouched k s \<longleftrightarrow>
     k \<notin> bmPositions (broadcastMsgs s) \<and>
     CallCheckAttestation k \<notin> set (calls s) \<and>
     (\<forall>d idxs. CallBroadcast d idxs \<in> set (calls s) \<longrightarrow> k \<notin> set idxs)"

subsection \<open>Example data\<close>

text \<open>
  A configuration that enables the route from domain 0 to domain 4 only, a registry with
  one chain for domain 4, a message on the enabled route and one to domain 5.
\<close>

definition exampleConfig :: Config where
  "exampleConfig = \<lparr>EnabledRoutes = [0 \<mapsto> [4]]\<rparr>"

definition exampleRegistry :: Registry where
  "exampleRegistry = [4 \<mapsto> \<lparr>Name = ''noble'', IsDestinationCaller = (\<lambda>caller. caller = [2])\<rparr>]"

definition exampleMsg :: MessageState where
  "exampleMsg = \<lparr>IrisLookupId = ''ab'', Status = Created, Attestation = [],
     SourceDomain = 0, DestDomain = 4, SourceTxHash = ''0xaa'', MsgSentBytes = [1],
     DestinationCaller = [2], Nonce = 42\<rparr>"

definition exampleTx :: TxState where
  "exampleTx = \<lparr>TxHash = ''0xaa'', Msgs = [exampleMsg]\<rparr>"

definition exampleTx2 :: TxState where
  "exampleTx2 = \<lparr>TxHash = ''0xaa'', Msgs = [exampleMsg, exampleMsg\<lparr>DestDomain := 5\<rparr>]\<rparr>"

text \<open>
  A worker that has \<open>exampleTx2\<close> in its queue and nothing stored, and a second TxState
  with the hash of \<open>exampleTx\<close> whose only message goes to domain 5.
\<close>

definition exampleWorker :: Worker where
  "exampleWorker = \<lparr>State = Map.empty, processingQueue = [exampleTx2]\<rparr>"

definition exampleTxB :: TxState where
  "exampleTxB = \<lparr>TxHash = ''0xaa'', Msgs = [exampleMsg\<lparr>DestDomain := 5\<rparr>]\<rparr>"

definition exampleLoop :: LoopState where
  "exampleLoop = \<lparr>msgs = [exampleMsg], broadcastMsgs = [], requeue = False, calls = []\<rparr>"

definition attComplete :: "nat \<Rightarrow> AttestationResponse option" where
  "attComplete i = Some \<lparr>RespAttestation = ''0xAB'', RespStatus = ''complete''\<rparr>"

definition bcFail :: "Domain \<Rightarrow> MessageState list \<Rightarrow> bool" where
  "bcFail domain ms = True"

definition bcOk :: "Domain \<Rightarrow> MessageState list \<Rightarrow> bool" where
  "bcOk domain ms = False"

section \<open>The Noble listener (noble/message_state.go)\<close>

text \<open>
  A transaction result of the Noble chain, as far as \<open>txToMessageState\<close> reads it: the
  hash, the result code and the events with their attributes (keys and values are
  strings, \<open>len\<close> counts their bytes).
\<close>

record EventAttribute =
  Key :: string
  Value :: string

record Event =
  Type :: string
  Attributes :: "EventAttribute list"

record ResultTx =
  Hash :: bytes
  Code :: "32 word"
  Events :: "Event list"

text \<open>The fields of a parsed CCTP message that \<open>txToMessageState\<close> copies.\<close>

record Message =
  MsgSourceDomain :: "32 word"
  MsgDestinationDomain :: "32 word"
  MsgNonce :: "64 word"
  MsgDestinationCaller :: bytes

text \<open>
  The library functions that \<open>txToMessageState\<close> calls are parameters of the model:
  base64 decoding (\<open>None\<close> for an error), Keccak-256, and the parser of the message
  header from the types package (\<open>None\<close> for an error).
\<close>

record Library =
  DecodeString :: "string \<Rightarrow> bytes option"
  Keccak256 :: "bytes \<Rightarrow> bytes"
  Parse :: "bytes \<Rightarrow> Message option"

text \<open>
  Hexadecimal encoding, two digits per byte: \<open>hex.EncodeToString\<close> writes lower case
  digits, the \<open>String\<close> method of a transaction hash upper case ones.
\<close>

definition hexEncode :: "string \<Rightarrow> bytes \<Rightarrow> string" where
  "hexEncode table bs = concat (map (\<lambda>b. [table ! (unat b div 16), table ! (unat b mod 16)]) bs)"

definition EncodeToString :: "bytes \<Rightarrow> string" where
  "EncodeToString bs = hexEncode ''0123456789abcdef'' bs"

definition HexBytes_String :: "bytes \<Rightarrow> string" where
  "HexBytes_String bz = hexEncode ''0123456789ABCDEF'' bz"

text \<open>
  The function ends in one of three ways: it panics (a slice expression out of range),
  it returns an error, or it returns the message states.
\<close>

datatype Failure = Panic | Error

text \<open>
  The slice expression \<open>attr.Value[1 : len(attr.Value)-1]\<close>. Go panics unless
  \<open>1 \<le> len - 1\<close>, that is for a value shorter than two bytes.
\<close>

definition stripQuotes :: "string \<Rightarrow> string option" where
  "stripQuotes v = (if length v < 2 then None else Some (take (length v - 2) (drop 1 v)))"

definition newMessageState :: "Library \<Rightarrow> bytes \<Rightarrow> bytes \<Rightarrow> Message \<Rightarrow> MessageState" where
  "newMessageState lib txhash rawMessageSentBytes msg =
     \<lparr>IrisLookupId = EncodeToString (Keccak256 lib rawMessageSentBytes),
      Status = Created,
      Attestation = [],
      SourceDomain = MsgSourceDomain msg,
      DestDomain = MsgDestinationDomain msg,
      SourceTxHash = HexBytes_String txhash,
      MsgSentBytes = rawMessageSentBytes,
      DestinationCaller = MsgDestinationCaller msg,
      Nonce = MsgNonce msg\<rparr>"

text \<open>
  The loop over the attributes of one MessageSent event. Its state is the flag
  \<open>parsed\<close> and the message states appended so far; \<open>None\<close> is the panic.
\<close>

fun attrLoop ::
  "Library \<Rightarrow> bytes \<Rightarrow> EventAttribute list \<Rightarrow> bool \<times> MessageState list \<Rightarrow>
   (bool \<times> MessageState list) option" where
  "attrLoop lib txhash [] st = Some st"
| "attrLoop lib txhash (attr # attrs) (parsed, messageStates) =
     (if Key attr = ''message'' then
        (case stripQuotes (Value attr) of
           None \<Rightarrow> None
         | Some encoded \<Rightarrow>
             (case DecodeString lib encoded of
                None \<Rightarrow> attrLoop lib txhash attrs (parsed, messageStates)
              | Some rawMessageSentBytes \<Rightarrow>
                  (case Parse lib rawMessageSentBytes of
                     None \<Rightarrow> attrLoop lib txhash attrs (parsed, messageStates)
                   | Some msg \<Rightarrow>
                       attrLoop lib txhash attrs
                         (True, messageStates @ [newMessageState lib txhash rawMessageSentBytes msg]))))
      else attrLoop lib txhash attrs (parsed, messageStates))"

text \<open>The loop over the events; \<open>parsed\<close> starts as false for every MessageSent event.\<close>

fun eventLoop ::
  "Library \<Rightarrow> bytes \<Rightarrow> Event list \<Rightarrow> MessageState list \<Rightarrow> Failure + MessageState list" where
  "eventLoop lib txhash [] messageStates = Inr messageStates"
| "eventLoop lib txhash (event # events) messageStates =
     (if Type event = ''circle.cctp.v1.MessageSent'' then
        (case attrLoop lib txhash (Attributes event) (False, messageStates) of
           None \<Rightarrow> Inl Panic
         | Some (parsed, messageStates') \<Rightarrow>
             if \<not> parsed then Inl Error else eventLoop lib txhash events messageStates')
      else eventLoop lib txhash events messageStates)"

definition txToMessageState :: "Library \<Rightarrow> ResultTx \<Rightarrow> Failure + MessageState list" where
  "txToMessageState lib tx =
     (if Code tx \<noteq> 0 then Inr [] else eventLoop lib (Hash tx) (Events tx) [])"

subsection \<open>What the function computes, stated directly\<close>

text \<open>
  The message state that one attribute contributes: the attribute has the key
  \<open>message\<close>, its value without the first and the last byte decodes, and the decoded
  bytes parse. \<open>eventStates\<close> collects them for the attributes of an event, in order.
\<close>

definition attrState :: "Library \<Rightarrow> bytes \<Rightarrow> EventAttribute \<Rightarrow> MessageState option" where
  "attrState lib txhash attr =
     (if Key attr = ''message'' then
        (case DecodeString lib (take (length (Value attr) - 2) (drop 1 (Value attr))) of
           None \<Rightarrow> None
         | Some raw \<Rightarrow> map_option (newMessageState lib txhash raw) (Parse lib raw))
      else None)"

definition eventStates :: "Library \<Rightarrow> bytes \<Rightarrow> Event \<Rightarrow> MessageState list" where
  "eventStates lib txhash event = List.map_filter (attrState lib txhash) (Attributes event)"

definition isMessageSent :: "Event \<Rightarrow> bool" where
  "isMessageSent event \<longleftrightarrow> Type event = ''circle.cctp.v1.MessageSent''"

text \<open>
  Every \<open>message\<close> attribute of every MessageSent event has a value of at least two
  bytes, so that the slice expression is in range.
\<close>

definition quoted :: "Event list \<Rightarrow> bool" where
  "quoted events \<longleftrightarrow>
     (\<forall>event \<in> set events. isMessageSent event \<longrightarrow>
        (\<forall>attr \<in> set (Attributes event). Key attr = ''message'' \<longrightarrow> 2 \<le> length (Value attr)))"

subsection \<open>Example data\<close>

text \<open>
  An instance of the library parameters for evaluating the model on concrete inputs. It
  is not base64 and not Keccak: decoding fails on a string that contains an exclamation
  mark and otherwise returns the bytes of the string, the hash reverses the bytes, and
  parsing needs two bytes at least. The theorems hold for every instance.
\<close>

definition exampleLibrary :: Library where
  "exampleLibrary =
     \<lparr>DecodeString = (\<lambda>s. if CHR ''!'' \<in> set s then None else Some (map of_char s)),
      Keccak256 = (\<lambda>bs. rev bs),
      Parse = (\<lambda>bs. if length bs < 2 then None
                 else Some \<lparr>MsgSourceDomain = 4, MsgDestinationDomain = ucast (bs ! 0),
                            MsgNonce = ucast (bs ! 1), MsgDestinationCaller = drop 2 bs\<rparr>)\<rparr>"

text \<open>An attribute \<open>message\<close> whose value is the given text between double quotes.\<close>

definition exampleAttr :: "string \<Rightarrow> EventAttribute" where
  "exampleAttr body = \<lparr>Key = ''message'', Value = [CHR 0x22] @ body @ [CHR 0x22]\<rparr>"

definition goodEvent :: Event where
  "goodEvent = \<lparr>Type = ''circle.cctp.v1.MessageSent'', Attributes = [exampleAttr ''AB12'']\<rparr>"

definition badEvent :: Event where
  "badEvent = \<lparr>Type = ''circle.cctp.v1.MessageSent'', Attributes = [exampleAttr ''!'']\<rparr>"

definition exampleResultTx :: "Event list \<Rightarrow> ResultTx" where
  "exampleResultTx events = \<lparr>Hash = [0xAB, 0x01], Code = 0, Events = events\<rparr>"

text \<open>A successful transaction with one MessageSent event whose message value is \<open>v\<close>.\<close>

definition panicTx :: "string \<Rightarrow> ResultTx" where
  "panicTx v = \<lparr>Hash = [], Code = 0,
     Events = [\<lparr>Type = ''circle.cctp.v1.MessageSent'', Attributes = [\<lparr>Key = ''message'', Value = v\<rparr>]\<rparr>]\<rparr>"

section \<open>The Ethereum listener (ethereum/listener.go)\<close>

subsection \<open>From logs to the processing queue\<close>

text \<open>
  \<open>EvmLogToMessageState\<close> is in the types package; it is the parameter \<open>parse\<close>, with
  \<open>None\<close> for an error.

  \<open>consumeHistroy\<close> and \<open>consumeStream\<close> send to the package variable
  \<open>processingQueue\<close>, a channel. The parameter of \<open>StartListener\<close> has the same name
  and hides the variable there, and nothing in the file assigns the variable, so in this
  source it holds the zero value of a channel, nil, and a send on a nil channel blocks
  for ever. The value of the variable is a parameter of the model, \<open>queue\<close> in the
  functions below: \<open>NilChan\<close>, or a
  channel with the TxStates sent to it so far, in order (its capacity is not modelled: a
  send on it goes through). \<open>send\<close> returns \<open>None\<close> when the send blocks for ever.
\<close>

datatype Chan = NilChan | Chan "TxState list"

fun send :: "Chan \<Rightarrow> TxState \<Rightarrow> Chan option" where
  "send NilChan t = None"
| "send (Chan q) t = Some (Chan (q @ [t]))"

definition newTxState :: "MessageState \<Rightarrow> TxState" where
  "newTxState parsedMsg = \<lparr>TxHash = SourceTxHash parsedMsg, Msgs = [parsedMsg]\<rparr>"

text \<open>
  \<open>consumeHistroy\<close> returns the channel after its sends, or \<open>None\<close> when a send
  blocks for ever and the function never returns.
\<close>

fun consumeHistroy ::
  "('log \<Rightarrow> MessageState option) \<Rightarrow> 'log list \<Rightarrow> Chan \<Rightarrow> Chan option" where
  "consumeHistroy parse [] queue = Some queue"
| "consumeHistroy parse (historicalLog # history) queue =
     (case parse historicalLog of
        None \<Rightarrow> consumeHistroy parse history queue
      | Some parsedMsg \<Rightarrow>
          (case send queue (newTxState parsedMsg) of
             None \<Rightarrow> None
           | Some queue' \<Rightarrow> consumeHistroy parse history queue'))"

text \<open>
  \<open>consumeStream\<close> runs a select statement in a loop. The model is driven by what the
  select takes in each round: a log from the stream, or the default branch (nothing is
  ready). The end of the list is the round in which the context is done or the error
  signal is ready, and the function returns; the result is the local \<open>txState\<close> at
  that moment and the channel, or \<open>None\<close> when a send blocks for ever.
\<close>

datatype 'log Select = StreamLog 'log | Default

fun consumeStream ::
  "('log \<Rightarrow> MessageState option) \<Rightarrow> 'log Select list \<Rightarrow> TxState option \<Rightarrow> Chan \<Rightarrow>
   (TxState option \<times> Chan) option" where
  "consumeStream parse [] txState queue = Some (txState, queue)"
| "consumeStream parse (StreamLog streamLog # rest) txState queue =
     (case parse streamLog of
        None \<Rightarrow> consumeStream parse rest txState queue
      | Some parsedMsg \<Rightarrow>
          (case txState of
             None \<Rightarrow> consumeStream parse rest (Some (newTxState parsedMsg)) queue
           | Some t \<Rightarrow>
               if SourceTxHash parsedMsg \<noteq> TxHash t
               then (case send queue t of
                       None \<Rightarrow> None
                     | Some queue' \<Rightarrow>
                         consumeStream parse rest (Some (newTxState parsedMsg)) queue')
               else consumeStream parse rest (Some (t\<lparr>Msgs := Msgs t @ [parsedMsg]\<rparr>))
                      queue))"
| "consumeStream parse (Default # rest) txState queue =
     (case txState of
        Some t \<Rightarrow>
          (case send queue t of
             None \<Rightarrow> None
           | Some queue' \<Rightarrow> consumeStream parse rest None queue')
      | None \<Rightarrow> consumeStream parse rest None queue)"

text \<open>
  The TxStates that have reached a channel, for handing them to the processor: none
  when the function did not return or the channel is nil.
\<close>

fun delivered :: "Chan option \<Rightarrow> TxState list" where
  "delivered (Some (Chan q)) = q"
| "delivered (Some NilChan) = []"
| "delivered None = []"

text \<open>A round of the select that is not a log that fails to parse.\<close>

definition parses :: "('log \<Rightarrow> MessageState option) \<Rightarrow> 'log Select \<Rightarrow> bool" where
  "parses parse x = (case x of StreamLog l \<Rightarrow> parse l \<noteq> None | Default \<Rightarrow> True)"

subsection \<open>Example data\<close>

text \<open>
  Logs with a transaction hash and data, and a parser for them that fails on empty data.
  \<open>burnLog\<close> and \<open>forwardLog\<close> are two MessageSent logs of the same transaction.
\<close>

record Log =
  LogTxHash :: string
  LogData :: bytes

definition exampleParse :: "Log \<Rightarrow> MessageState option" where
  "exampleParse l =
     (if LogData l = [] then None
      else Some (exampleMsg\<lparr>SourceTxHash := LogTxHash l, MsgSentBytes := LogData l\<rparr>))"

definition burnLog :: Log where
  "burnLog = \<lparr>LogTxHash = ''0xaa'', LogData = [1]\<rparr>"

definition forwardLog :: Log where
  "forwardLog = \<lparr>LogTxHash = ''0xaa'', LogData = [7]\<rparr>"

definition brokenLog :: Log where
  "brokenLog = \<lparr>LogTxHash = ''0xaa'', LogData = []\<rparr>"

subsection \<open>The historical backfill\<close>

text \<open>
  A history query, as \<open>getAndConsumeHistory\<close> builds it: the block numbers are the
  unsigned loop variables converted to \<open>int64\<close> and then to big integers, so a value
  of \<open>2 ^ 63\<close> or more becomes negative.
\<close>

record FilterQuery =
  FromBlock :: int
  ToBlock :: int

text \<open>
  The loop of \<open>getAndConsumeHistory\<close> over unsigned 64-bit block numbers, which wrap
  around. Each round builds a query, issues it (a query that fails is repeated until it
  succeeds, and is listed once), and hands the history that the query returns to
  \<open>consumeHistroy\<close>; \<open>QueryWithHistory\<close> gives the history of a query.

  The result is the list of the queries issued, in order, and the channel when the
  function returns, or \<open>None\<close> in its place when a send in \<open>consumeHistroy\<close> blocks
  for ever: then the queries are those issued up to that moment. With wrap-around the
  loop itself need not end, so the function is partial: the outer \<open>None\<close> stands for a
  loop that goes on for ever. The number of chunks that the source computes is only
  logged and is left out.
\<close>

partial_function (option) historyLoop ::
  "(FilterQuery \<Rightarrow> 'log list) \<Rightarrow> ('log \<Rightarrow> MessageState option) \<Rightarrow>
   64 word \<Rightarrow> 64 word \<Rightarrow> FilterQuery list \<Rightarrow> Chan \<Rightarrow> (FilterQuery list \<times> Chan option) option" where
  "historyLoop QueryWithHistory parse start endBlock queries queue =
     (if start < endBlock then
        (let chunkSize = 100;
             fromBlock = start;
             toBlock = (if start + chunkSize > endBlock then endBlock else start + chunkSize);
             query = \<lparr>FromBlock = sint fromBlock, ToBlock = sint toBlock\<rparr>
         in case consumeHistroy parse (QueryWithHistory query) queue of
              None \<Rightarrow> Some (queries @ [query], None)
            | Some queue' \<Rightarrow>
                historyLoop QueryWithHistory parse (start + chunkSize) endBlock
                  (queries @ [query]) queue')
      else Some (queries, Some queue))"

definition getAndConsumeHistory ::
  "(FilterQuery \<Rightarrow> 'log list) \<Rightarrow> ('log \<Rightarrow> MessageState option) \<Rightarrow>
   64 word \<Rightarrow> 64 word \<Rightarrow> Chan \<Rightarrow> (FilterQuery list \<times> Chan option) option" where
  "getAndConsumeHistory QueryWithHistory parse start endBlock queue =
     historyLoop QueryWithHistory parse start endBlock [] queue"

text \<open>
  The two settings of the chain that the backfill reads, and the backfill of
  \<open>startListenerRoutines\<close>: the history that came with the main subscription is
  consumed first, then the history from start minus look-back up to the latest block is
  queried and consumed. \<open>latestBlock\<close> is the value of \<open>e.LatestBlock()\<close>. The
  stream consumer runs beside it as a routine of its own and is not part of this
  function.
\<close>

record Ethereum =
  startBlock :: "64 word"
  lookbackPeriod :: "64 word"

definition startOf :: "Ethereum \<Rightarrow> 64 word \<Rightarrow> 64 word" where
  "startOf e latestBlock = (if startBlock e \<noteq> 0 then startBlock e else latestBlock)"

definition backfill ::
  "Ethereum \<Rightarrow> 64 word \<Rightarrow> (FilterQuery \<Rightarrow> 'log list) \<Rightarrow> ('log \<Rightarrow> MessageState option) \<Rightarrow>
   'log list \<Rightarrow> Chan \<Rightarrow> (FilterQuery list \<times> Chan option) option" where
  "backfill e latestBlock QueryWithHistory parse history queue =
     (case consumeHistroy parse history queue of
        None \<Rightarrow> Some ([], None)
      | Some queue' \<Rightarrow>
          (let start = startOf e latestBlock;
               startLookback = start - lookbackPeriod e
           in getAndConsumeHistory QueryWithHistory parse startLookback latestBlock
                queue'))"

text \<open>
  The chunks of the block range from \<open>s\<close> to \<open>e\<close>, stated directly on natural
  numbers: chunk \<open>k\<close> starts at \<open>s + 100 * k\<close> and ends 100 blocks later or at
  \<open>e\<close>, whichever is less. \<open>covered\<close> is the set of the blocks that a list of queries
  asks for, both ends of a query included.
\<close>

definition chunk :: "nat \<Rightarrow> nat \<Rightarrow> nat \<Rightarrow> FilterQuery" where
  "chunk s e k = \<lparr>FromBlock = int (s + 100 * k), ToBlock = int (min (s + 100 * (k + 1)) e)\<rparr>"

definition chunks :: "nat \<Rightarrow> nat \<Rightarrow> FilterQuery list" where
  "chunks s e = map (chunk s e) [0 ..< (e - s + 99) div 100]"

definition covered :: "FilterQuery list \<Rightarrow> int set" where
  "covered qs = (\<Union>q \<in> set qs. {FromBlock q .. ToBlock q})"

definition exampleEthereum :: "64 word \<Rightarrow> 64 word \<Rightarrow> Ethereum" where
  "exampleEthereum sb lb = \<lparr>startBlock = sb, lookbackPeriod = lb\<rparr>"

section \<open>The lookup API (cmd/process.go)\<close>

text \<open>
  \<open>strconv.ParseInt(domain, 10, 0)\<close> of the Go library. \<open>ParseUint\<close> reads the
  digits from the left: a byte that is not a decimal digit is a syntax error with
  value 0, and as soon as the value read so far leaves the unsigned 64-bit range it is a
  range error with the largest value, whatever follows. \<open>ParseInt\<close> takes an optional
  sign first and bounds the result by the signed 64-bit range. Its result here is the
  value and whether an error is returned.
\<close>

definition isDigit :: "char \<Rightarrow> bool" where
  "isDigit c \<longleftrightarrow> 48 \<le> (of_char c :: nat) \<and> (of_char c :: nat) \<le> 57"

datatype NumError = ErrSyntax | ErrRange

fun ParseUint_loop :: "nat \<Rightarrow> string \<Rightarrow> nat \<times> NumError option" where
  "ParseUint_loop n [] = (n, None)"
| "ParseUint_loop n (c # cs) =
     (if \<not> isDigit c then (0, Some ErrSyntax)
      else if n \<ge> (2 ^ 64 - 1) div 10 + 1 then (2 ^ 64 - 1, Some ErrRange)
      else (let n1 = n * 10 + ((of_char c :: nat) - 48)
            in if n1 > 2 ^ 64 - 1 then (2 ^ 64 - 1, Some ErrRange)
               else ParseUint_loop n1 cs))"

definition ParseUint :: "string \<Rightarrow> nat \<times> NumError option" where
  "ParseUint s = (if s = [] then (0, Some ErrSyntax) else ParseUint_loop 0 s)"

definition ParseInt :: "string \<Rightarrow> int \<times> bool" where
  "ParseInt s0 =
     (case s0 of
        [] \<Rightarrow> (0, True)
      | c # cs \<Rightarrow>
          (let neg = (c = CHR ''-'');
               s = (if c = CHR ''+'' \<or> c = CHR ''-'' then cs else s0);
               (un, err) = ParseUint s
           in if err = Some ErrSyntax then (0, True)
              else (let cutoff = 2 ^ 63
                    in if \<not> neg \<and> un \<ge> cutoff then (int cutoff - 1, True)
                       else if neg \<and> un > cutoff then (- int cutoff, True)
                       else (if neg then - int un else int un, False))))"

text \<open>
  The handler writes JSON responses (a status code and a body) and returns, or it
  panics: \<open>tx.Msgs[0]\<close> dereferences the nil pointer that the state map returns for
  an absent hash, or indexes an empty slice. Either way the responses written before are
  kept. The condition of the source is
  \<open>ok && domain == "" || (domain != "" && tx.Msgs[0].SourceDomain == types.Domain(domainInt))\<close>;
  the conversion to a domain keeps the low 32 bits.
\<close>

datatype Body = MessageBody string | MsgsBody "MessageState list"

datatype Outcome = Returned "(nat \<times> Body) list" | Panicked "(nat \<times> Body) list"

definition getTxByHash :: "(string \<rightharpoonup> TxState) \<Rightarrow> string \<Rightarrow> string \<Rightarrow> Outcome" where
  "getTxByHash state txHash domain =
     (let (domainInt, err) = ParseInt domain;
          written = (if domain \<noteq> [] \<and> err
                     then [(400, MessageBody ''unable to parse domain'')] else [])
      in case state txHash of
           None \<Rightarrow>
             if domain = [] then Returned (written @ [(404, MessageBody ''message not found'')])
             else Panicked written
         | Some tx \<Rightarrow>
             if domain = [] then Returned (written @ [(200, MsgsBody (Msgs tx))])
             else (case Msgs tx of
                     [] \<Rightarrow> Panicked written
                   | msg # _ \<Rightarrow>
                       if SourceDomain msg = word_of_int domainInt
                       then Returned (written @ [(200, MsgsBody (Msgs tx))])
                       else Returned (written @ [(404, MessageBody ''message not found'')])))"


section \<open>Properties of the processor\<close>

lemma routeLoop_iff: "routeLoop val dest \<longleftrightarrow> dest \<notin> set val"
  by (induction val) auto

lemma lookupMsgs_appendMsg:
  "lookupMsgs (appendMsg bm d i) d' = (if d' = d then lookupMsgs bm d @ [i] else lookupMsgs bm d')"
  by (induction bm) (auto simp: lookupMsgs_def)

lemma setStatus_simps [simp]:
  "msgs (setStatus s i st) = (msgs s)[i := (msgs s ! i)\<lparr>Status := st\<rparr>]"
  "broadcastMsgs (setStatus s i st) = broadcastMsgs s"
  "requeue (setStatus s i st) = requeue s"
  "calls (setStatus s i st) = calls s"
  by (simp_all add: setStatus_def)

lemma same_status_update: "Status m = st \<Longrightarrow> m\<lparr>Status := st\<rparr> = m"
  by (cases m) simp

lemma processMsg_unfiltered:
  assumes "\<not> FilterDisabledCCTPRoutes cfg (msgs s ! i)"
    and "\<not> filterInvalidDestinationCallers reg (msgs s ! i)"
    and "Status (msgs s ! i) = Created \<or> Status (msgs s ! i) = Pending"
  shows "processMsg cfg reg att s i =
           attestStep (att i) (s\<lparr>calls := calls s @ [CallCheckAttestation i]\<rparr>) i"
  using assms by (simp add: processMsg_def)

lemma attestStep_pending:
  assumes "RespStatus r = ''pending_confirmations''"
    and "Status (msgs s ! i) = Created \<or> Status (msgs s ! i) = Pending"
  shows "attestStep (Some r) s i =
           s\<lparr>msgs := (msgs s)[i := (msgs s ! i)\<lparr>Status := Pending\<rparr>], requeue := True\<rparr>"
proof (cases "Status (msgs s ! i) = Created")
  case True
  then show ?thesis using assms(1) by (simp add: attestStep_def setStatus_def)
next
  case False
  with assms(2) have p: "Status (msgs s ! i) = Pending" by simp
  then have "(msgs s)[i := (msgs s ! i)\<lparr>Status := Pending\<rparr>] = msgs s"
    by (simp add: same_status_update)
  with False assms(1) show ?thesis by (simp add: attestStep_def)
qed

lemma attestStep_complete:
  assumes "RespStatus r = ''complete''"
  shows "attestStep (Some r) s i =
           s\<lparr>msgs := (msgs s)[i := (msgs s ! i)\<lparr>Status := Attested, Attestation := RespAttestation r\<rparr>],
             broadcastMsgs := appendMsg (broadcastMsgs s) (DestDomain (msgs s ! i)) i\<rparr>"
  using assms by (simp add: attestStep_def Let_def)

lemma attestStep_nil: "attestStep None s i = s\<lparr>requeue := True\<rparr>"
  by (simp add: attestStep_def)


lemma bmPositions_Cons: "bmPositions ((d, l) # bm) = set l \<union> bmPositions bm"
  by (simp add: bmPositions_def)

lemma bmPositions_appendMsg: "bmPositions (appendMsg bm d i) = insert i (bmPositions bm)"
proof (induction bm)
  case Nil
  show ?case by (simp add: bmPositions_def)
next
  case (Cons p bm)
  obtain d' l where p: "p = (d', l)" by (cases p)
  show ?case unfolding p using Cons.IH by (auto simp add: bmPositions_Cons)
qed

lemma filtered_Status_upd [simp]:
  "FilterDisabledCCTPRoutes cfg (m\<lparr>Status := st\<rparr>) = FilterDisabledCCTPRoutes cfg m"
  "filterInvalidDestinationCallers reg (m\<lparr>Status := st\<rparr>) = filterInvalidDestinationCallers reg m"
  "FilterDisabledCCTPRoutes cfg (m\<lparr>Attestation := a\<rparr>) = FilterDisabledCCTPRoutes cfg m"
  "filterInvalidDestinationCallers reg (m\<lparr>Attestation := a\<rparr>) = filterInvalidDestinationCallers reg m"
  by (simp_all add: FilterDisabledCCTPRoutes_def filterInvalidDestinationCallers_def split: option.splits)

lemma attestStep_length [simp]: "length (msgs (attestStep r s i)) = length (msgs s)"
  by (simp add: attestStep_def Let_def split: option.splits)

lemma processMsg_length [simp]: "length (msgs (processMsg cfg reg att s i)) = length (msgs s)"
  by (simp add: processMsg_def Let_def)

lemma attestStep_other:
  "k \<noteq> i \<Longrightarrow> msgs (attestStep r s i) ! k = msgs s ! k"
  by (simp add: attestStep_def Let_def split: option.splits)

lemma attestStep_bm:
  "bmPositions (broadcastMsgs (attestStep r s i)) \<subseteq> insert i (bmPositions (broadcastMsgs s))"
  by (auto simp add: attestStep_def Let_def bmPositions_appendMsg split: option.splits)

lemma attestStep_calls [simp]: "calls (attestStep r s i) = calls s"
  by (simp add: attestStep_def Let_def split: option.splits)

lemma processMsg_self:
  assumes "k < length (msgs s)" and "filtered cfg reg (msgs s ! k)"
  shows "processMsg cfg reg att s k =
           (if FilterDisabledCCTPRoutes cfg (msgs s ! k) \<or> filterInvalidDestinationCallers reg (msgs s ! k)
            then setStatus s k Filtered else s)"
  using assms by (auto simp add: processMsg_def filtered_def)

lemma processMsg_self_untouched:
  assumes "k < length (msgs s)" and "filtered cfg reg (msgs s ! k)" and "untouched k s"
  shows "untouched k (processMsg cfg reg att s k)"
    and "Status (msgs (processMsg cfg reg att s k) ! k) = Filtered"
    and "filtered cfg reg (msgs (processMsg cfg reg att s k) ! k)"
    and "requeue (processMsg cfg reg att s k) = requeue s"
  using assms by (auto simp add: processMsg_self untouched_def filtered_def)

lemma processMsg_other:
  assumes "k \<noteq> i"
  shows "msgs (processMsg cfg reg att s i) ! k = msgs s ! k"
  using assms by (simp add: processMsg_def Let_def attestStep_other)

lemma processMsg_other_untouched:
  assumes "k \<noteq> i" and "untouched k s"
  shows "untouched k (processMsg cfg reg att s i)"
proof -
  have bm: "bmPositions (broadcastMsgs (processMsg cfg reg att s i)) \<subseteq> insert i (bmPositions (broadcastMsgs s))"
  proof -
    have "\<And>r t. broadcastMsgs t = broadcastMsgs s \<Longrightarrow>
            bmPositions (broadcastMsgs (attestStep r t i)) \<subseteq> insert i (bmPositions (broadcastMsgs s))"
      using attestStep_bm by metis
    then show ?thesis by (auto simp add: processMsg_def Let_def simp del: setStatus_simps(1))
  qed
  have c: "set (calls (processMsg cfg reg att s i)) \<subseteq> insert (CallCheckAttestation i) (set (calls s))"
    by (auto simp add: processMsg_def Let_def)
  from assms bm c show ?thesis
    unfolding untouched_def by blast
qed

lemma messageLoop_filtered:
  assumes "k < length (msgs s)" and "filtered cfg reg (msgs s ! k)" and "untouched k s"
  shows "untouched k (foldl (processMsg cfg reg att) s js)
       \<and> length (msgs (foldl (processMsg cfg reg att) s js)) = length (msgs s)
       \<and> filtered cfg reg (msgs (foldl (processMsg cfg reg att) s js) ! k)
       \<and> (k \<in> set js \<longrightarrow> Status (msgs (foldl (processMsg cfg reg att) s js) ! k) = Filtered)
       \<and> (k \<notin> set js \<longrightarrow> msgs (foldl (processMsg cfg reg att) s js) ! k = msgs s ! k)"
  using assms
proof (induction js arbitrary: s rule: rev_induct)
  case Nil
  then show ?case by simp
next
  case (snoc j js)
  let ?t = "foldl (processMsg cfg reg att) s js"
  from snoc.IH [OF snoc.prems] have ih:
    "untouched k ?t" "length (msgs ?t) = length (msgs s)" "filtered cfg reg (msgs ?t ! k)"
    "k \<in> set js \<longrightarrow> Status (msgs ?t ! k) = Filtered"
    "k \<notin> set js \<longrightarrow> msgs ?t ! k = msgs s ! k"
    by simp_all
  have k: "k < length (msgs ?t)" using ih(2) snoc.prems(1) by simp
  show ?case
  proof (cases "j = k")
    case True
    with processMsg_self_untouched [OF k ih(3) ih(1), of att] ih(2) show ?thesis by simp
  next
    case False
    then have "k \<noteq> j" by simp
    from processMsg_other [OF this, of cfg reg att ?t] processMsg_other_untouched [OF this ih(1), of cfg reg att]
      ih False
    show ?thesis by simp
  qed
qed

lemma foldl_setStatus_other:
  "k \<notin> set idxs \<Longrightarrow> msgs (foldl (\<lambda>t i. setStatus t i st) s idxs) ! k = msgs s ! k"
  by (induction idxs arbitrary: s) simp_all

lemma foldl_setStatus_rest [simp]:
  "calls (foldl (\<lambda>t i. setStatus t i st) s idxs) = calls s"
  "requeue (foldl (\<lambda>t i. setStatus t i st) s idxs) = requeue s"
  "length (msgs (foldl (\<lambda>t i. setStatus t i st) s idxs)) = length (msgs s)"
  by (induction idxs arbitrary: s) simp_all

lemma broadcastLoop_untouched:
  assumes "k \<notin> bmPositions bm"
    and "CallCheckAttestation k \<notin> set (calls s)"
    and "\<forall>d idxs. CallBroadcast d idxs \<in> set (calls s) \<longrightarrow> k \<notin> set idxs"
  shows "msgs (broadcastLoop reg bc bm s) ! k = msgs s ! k
       \<and> CallCheckAttestation k \<notin> set (calls (broadcastLoop reg bc bm s))
       \<and> (\<forall>d idxs. CallBroadcast d idxs \<in> set (calls (broadcastLoop reg bc bm s)) \<longrightarrow> k \<notin> set idxs)"
  using assms
proof (induction bm arbitrary: s)
  case Nil
  then show ?case by simp
next
  case (Cons p bm)
  obtain domain idxs where p: "p = (domain, idxs)" by (cases p)
  from Cons.prems(1) p have k1: "k \<notin> set idxs" and k2: "k \<notin> bmPositions bm"
    by (simp_all add: bmPositions_Cons)
  show ?case
  proof (cases "reg domain")
    case None
    with Cons.IH [OF k2 Cons.prems(2,3)] p show ?thesis by simp
  next
    case (Some chain)
    let ?s' = "s\<lparr>calls := calls s @ [CallBroadcast domain idxs]\<rparr>"
    show ?thesis
    proof (cases "bc domain (map (\<lambda>i. msgs s ! i) idxs)")
      case True
      let ?u = "?s'\<lparr>requeue := True\<rparr>"
      have a: "CallCheckAttestation k \<notin> set (calls ?u)" using Cons.prems(2) by simp
      have b: "\<forall>d is. CallBroadcast d is \<in> set (calls ?u) \<longrightarrow> k \<notin> set is"
        using Cons.prems(3) k1 by auto
      from Cons.IH [OF k2 a b] Some True p show ?thesis by (simp add: Let_def)
    next
      case False
      let ?u = "foldl (\<lambda>t i. setStatus t i Complete) ?s' idxs"
      have a: "CallCheckAttestation k \<notin> set (calls ?u)" using Cons.prems(2) by simp
      have b: "\<forall>d is. CallBroadcast d is \<in> set (calls ?u) \<longrightarrow> k \<notin> set is"
        using Cons.prems(3) k1 by auto
      have c: "msgs ?u ! k = msgs s ! k" using foldl_setStatus_other [OF k1, of Complete ?s'] by simp
      from Cons.IH [OF k2 a b] Some False p c show ?thesis by (simp add: Let_def)
    qed
  qed
qed

lemma processTx_filtered:
  assumes "k < length (Msgs tx)" and "filtered cfg reg (Msgs tx ! k)"
  shows "Status (msgs (processTx cfg reg att bc tx) ! k) = Filtered
       \<and> CallCheckAttestation k \<notin> set (calls (processTx cfg reg att bc tx))
       \<and> (\<forall>d idxs. CallBroadcast d idxs \<in> set (calls (processTx cfg reg att bc tx)) \<longrightarrow> k \<notin> set idxs)
       \<and> filtered cfg reg (msgs (processTx cfg reg att bc tx) ! k)"
proof -
  let ?init = "\<lparr>msgs = Msgs tx, broadcastMsgs = [], requeue = False, calls = []\<rparr>"
  let ?s = "foldl (processMsg cfg reg att) ?init [0 ..< length (Msgs tx)]"
  have u0: "untouched k ?init" by (simp add: untouched_def bmPositions_def)
  from messageLoop_filtered [of k ?init cfg reg att "[0 ..< length (Msgs tx)]"] assms u0
  have l: "untouched k ?s" "Status (msgs ?s ! k) = Filtered" "filtered cfg reg (msgs ?s ! k)"
    by simp_all
  from l(1) have u: "k \<notin> bmPositions (broadcastMsgs ?s)"
    "CallCheckAttestation k \<notin> set (calls ?s)"
    "\<forall>d idxs. CallBroadcast d idxs \<in> set (calls ?s) \<longrightarrow> k \<notin> set idxs"
    by (simp_all add: untouched_def)
  from broadcastLoop_untouched [OF u, of reg bc]
  have b: "msgs (broadcastLoop reg bc (broadcastMsgs ?s) ?s) ! k = msgs ?s ! k"
    "CallCheckAttestation k \<notin> set (calls (broadcastLoop reg bc (broadcastMsgs ?s) ?s))"
    "\<forall>d idxs. CallBroadcast d idxs \<in> set (calls (broadcastLoop reg bc (broadcastMsgs ?s) ?s)) \<longrightarrow> k \<notin> set idxs"
    by simp_all
  from l b show ?thesis by (simp add: processTx_def Let_def)
qed

lemma broadcastLoop_length [simp]:
  "length (msgs (broadcastLoop reg bc bm s)) = length (msgs s)"
  by (induction bm arbitrary: s) (auto simp: Let_def split: option.splits)

lemma foldl_processMsg_length [simp]:
  "length (msgs (foldl (processMsg cfg reg att) s js)) = length (msgs s)"
  by (induction js arbitrary: s) simp_all

lemma processTx_length [simp]:
  "length (msgs (processTx cfg reg att bc tx)) = length (Msgs tx)"
  by (simp add: processTx_def Let_def)

lemma passes_filtered:
  assumes "k < length (Msgs tx)" and "filtered cfg reg (Msgs tx ! k)"
  shows "k < length (Msgs (passes cfg reg env tx)) \<and> filtered cfg reg (Msgs (passes cfg reg env tx) ! k)"
  using assms
proof (induction env arbitrary: tx)
  case Nil
  then show ?case by simp
next
  case (Cons p env)
  obtain att bc where p: "p = (att, bc)" by (cases p)
  let ?tx = "tx\<lparr>Msgs := msgs (processTx cfg reg att bc tx)\<rparr>"
  have a: "k < length (Msgs ?tx)" using Cons.prems(1) by simp
  have b: "filtered cfg reg (Msgs ?tx ! k)"
    using processTx_filtered [OF Cons.prems, of att bc] by simp
  from Cons.IH [OF a b] show ?case by (simp add: p)
qed


subsection \<open>The attest step\<close>

text \<open>
  Claim C2. For a message at position \<open>i\<close> that no filter rejects and whose status is
  Created or Pending, the loop body calls the attestation service once and then:
  on a \<open>pending_confirmations\<close> response the status becomes (or stays) Pending and
  requeue is set; on a \<open>complete\<close> response the status becomes Attested, the
  attestation is stored, the message is appended to \<open>broadcastMsgs\<close> of its
  destination domain (the entries of the other domains stay) and requeue is left as it
  was; on a nil response nothing changes but requeue, which is set.
\<close>

theorem C2_attest_step:
  assumes "i < length (msgs s)"
    and "\<not> FilterDisabledCCTPRoutes cfg (msgs s ! i)"
    and "\<not> filterInvalidDestinationCallers reg (msgs s ! i)"
    and "Status (msgs s ! i) = Created \<or> Status (msgs s ! i) = Pending"
  shows "(\<forall>r. att i = Some r \<and> RespStatus r = ''pending_confirmations'' \<longrightarrow>
            processMsg cfg reg att s i =
              s\<lparr>msgs := (msgs s)[i := (msgs s ! i)\<lparr>Status := Pending\<rparr>],
                requeue := True,
                calls := calls s @ [CallCheckAttestation i]\<rparr>)
       \<and> (\<forall>r. att i = Some r \<and> RespStatus r = ''complete'' \<longrightarrow>
            (let s' = processMsg cfg reg att s i in
               msgs s' = (msgs s)[i := (msgs s ! i)\<lparr>Status := Attested, Attestation := RespAttestation r\<rparr>]
             \<and> lookupMsgs (broadcastMsgs s') (DestDomain (msgs s ! i)) =
                 lookupMsgs (broadcastMsgs s) (DestDomain (msgs s ! i)) @ [i]
             \<and> (\<forall>d. d \<noteq> DestDomain (msgs s ! i) \<longrightarrow>
                    lookupMsgs (broadcastMsgs s') d = lookupMsgs (broadcastMsgs s) d)
             \<and> requeue s' = requeue s
             \<and> calls s' = calls s @ [CallCheckAttestation i]))
       \<and> (att i = None \<longrightarrow>
            processMsg cfg reg att s i =
              s\<lparr>requeue := True, calls := calls s @ [CallCheckAttestation i]\<rparr>)"
proof -
  note u = processMsg_unfiltered [OF assms(2,3,4), of att]
  have a: "\<And>r. att i = Some r \<Longrightarrow> RespStatus r = ''pending_confirmations'' \<Longrightarrow>
            processMsg cfg reg att s i =
              s\<lparr>msgs := (msgs s)[i := (msgs s ! i)\<lparr>Status := Pending\<rparr>],
                requeue := True,
                calls := calls s @ [CallCheckAttestation i]\<rparr>"
    using assms(4) by (simp add: u attestStep_pending)
  have b: "\<And>r. att i = Some r \<Longrightarrow> RespStatus r = ''complete'' \<Longrightarrow>
            (let s' = processMsg cfg reg att s i in
               msgs s' = (msgs s)[i := (msgs s ! i)\<lparr>Status := Attested, Attestation := RespAttestation r\<rparr>]
             \<and> lookupMsgs (broadcastMsgs s') (DestDomain (msgs s ! i)) =
                 lookupMsgs (broadcastMsgs s) (DestDomain (msgs s ! i)) @ [i]
             \<and> (\<forall>d. d \<noteq> DestDomain (msgs s ! i) \<longrightarrow>
                    lookupMsgs (broadcastMsgs s') d = lookupMsgs (broadcastMsgs s) d)
             \<and> requeue s' = requeue s
             \<and> calls s' = calls s @ [CallCheckAttestation i])"
    by (simp add: u attestStep_complete lookupMsgs_appendMsg)
  have c: "att i = None \<Longrightarrow>
            processMsg cfg reg att s i =
              s\<lparr>requeue := True, calls := calls s @ [CallCheckAttestation i]\<rparr>"
    by (simp add: u attestStep_nil)
  from a b c show ?thesis by blast
qed


theorem C2_attest_step_witness:
  "0 < length (msgs exampleLoop)
   \<and> \<not> FilterDisabledCCTPRoutes exampleConfig (msgs exampleLoop ! 0)
   \<and> \<not> filterInvalidDestinationCallers exampleRegistry (msgs exampleLoop ! 0)
   \<and> (Status (msgs exampleLoop ! 0) = Created \<or> Status (msgs exampleLoop ! 0) = Pending)
   \<and> msgs (processMsg exampleConfig exampleRegistry attComplete exampleLoop 0) =
         [exampleMsg\<lparr>Status := Attested, Attestation := ''0xAB''\<rparr>]
   \<and> lookupMsgs (broadcastMsgs (processMsg exampleConfig exampleRegistry attComplete exampleLoop 0)) 4 = [0]"
proof -
  have h1: "0 < length (msgs exampleLoop)" by (simp add: exampleLoop_def)
  have h2: "\<not> FilterDisabledCCTPRoutes exampleConfig (msgs exampleLoop ! 0)"
    by (simp add: exampleLoop_def exampleMsg_def exampleConfig_def FilterDisabledCCTPRoutes_def)
  have h3: "\<not> filterInvalidDestinationCallers exampleRegistry (msgs exampleLoop ! 0)"
    by (simp add: exampleLoop_def exampleMsg_def exampleRegistry_def filterInvalidDestinationCallers_def)
  have h4: "Status (msgs exampleLoop ! 0) = Created \<or> Status (msgs exampleLoop ! 0) = Pending"
    by (simp add: exampleLoop_def exampleMsg_def)
  have d: "DestDomain exampleMsg = 4" "msgs exampleLoop = [exampleMsg]"
    "broadcastMsgs exampleLoop = []"
    by (simp_all add: exampleLoop_def exampleMsg_def)
  from C2_attest_step [OF h1 h2 h3 h4, of attComplete]
  have "msgs (processMsg exampleConfig exampleRegistry attComplete exampleLoop 0) =
         [exampleMsg\<lparr>Status := Attested, Attestation := ''0xAB''\<rparr>]
      \<and> lookupMsgs (broadcastMsgs (processMsg exampleConfig exampleRegistry attComplete exampleLoop 0)) 4 = [0]"
    by (simp add: attComplete_def Let_def d lookupMsgs_def)
  with h1 h2 h3 h4 show ?thesis by simp
qed

subsection \<open>Filtered messages\<close>

text \<open>
  The filter for disabled routes is true exactly when the source domain is not a key of
  EnabledRoutes or the destination domain is not in the list of the source domain.
\<close>

lemma FilterDisabledCCTPRoutes_iff:
  "FilterDisabledCCTPRoutes cfg m \<longleftrightarrow>
     (EnabledRoutes cfg (SourceDomain m) = None \<or>
      (\<exists>val. EnabledRoutes cfg (SourceDomain m) = Some val \<and> DestDomain m \<notin> set val))"
  by (simp add: FilterDisabledCCTPRoutes_def routeLoop_iff split: option.splits)

lemma map_update_same:
  "f x = f (xs ! i) \<Longrightarrow> map f (xs[i := x]) = map f xs"
  by (induction xs arbitrary: i) (simp_all split: nat.splits)

text \<open>A pass changes the status and the attestation of messages, never their route.\<close>

lemma route_upd [simp]:
  "route (m\<lparr>Status := st\<rparr>) = route m"
  "route (m\<lparr>Status := st, Attestation := a\<rparr>) = route m"
  by (simp_all add: route_def)

lemma status_update_routes [simp]:
  "map route (xs[i := (xs ! i)\<lparr>Status := st\<rparr>]) = map route xs"
  "map route (xs[i := (xs ! i)\<lparr>Status := st, Attestation := a\<rparr>]) = map route xs"
  by (simp_all add: map_update_same)

lemma attestStep_routes [simp]: "map route (msgs (attestStep r s i)) = map route (msgs s)"
  by (simp add: attestStep_def Let_def split: option.splits)

lemma processMsg_routes [simp]:
  "map route (msgs (processMsg cfg reg att s i)) = map route (msgs s)"
  by (simp add: processMsg_def Let_def)

lemma messageLoop_routes [simp]:
  "map route (msgs (foldl (processMsg cfg reg att) s js)) = map route (msgs s)"
  by (induction js arbitrary: s) simp_all

lemma foldl_setStatus_routes [simp]:
  "map route (msgs (foldl (\<lambda>t i. setStatus t i st) s idxs)) = map route (msgs s)"
  by (induction idxs arbitrary: s) simp_all

lemma broadcastLoop_routes [simp]:
  "map route (msgs (broadcastLoop reg bc bm s)) = map route (msgs s)"
  by (induction bm arbitrary: s) (auto simp add: Let_def split: option.splits)

lemma processTx_routes: "map route (msgs (processTx cfg reg att bc tx)) = map route (Msgs tx)"
  by (simp add: processTx_def Let_def)

lemma processTx_route_nth:
  assumes "k < length (Msgs tx)"
  shows "SourceDomain (msgs (processTx cfg reg att bc tx) ! k) = SourceDomain (Msgs tx ! k)"
    and "DestDomain (msgs (processTx cfg reg att bc tx) ! k) = DestDomain (Msgs tx ! k)"
proof -
  have "map route (msgs (processTx cfg reg att bc tx)) ! k = map route (Msgs tx) ! k"
    by (simp only: processTx_routes)
  then have "route (msgs (processTx cfg reg att bc tx) ! k) = route (Msgs tx ! k)"
    using assms by simp
  then show "SourceDomain (msgs (processTx cfg reg att bc tx) ! k) = SourceDomain (Msgs tx ! k)"
    and "DestDomain (msgs (processTx cfg reg att bc tx) ! k) = DestDomain (Msgs tx ! k)"
    by (simp_all add: route_def)
qed

text \<open>After a pass, the disabled-route messages of the processed TxState.\<close>

lemma processTx_disabled_route:
  assumes "k < length (msgs (processTx cfg reg att bc tx))"
    and "EnabledRoutes cfg (SourceDomain (msgs (processTx cfg reg att bc tx) ! k)) = None \<or>
         (\<exists>val. EnabledRoutes cfg (SourceDomain (msgs (processTx cfg reg att bc tx) ! k)) = Some val
                \<and> DestDomain (msgs (processTx cfg reg att bc tx) ! k) \<notin> set val)"
  shows "Status (msgs (processTx cfg reg att bc tx) ! k) = Filtered
       \<and> CallCheckAttestation k \<notin> set (calls (processTx cfg reg att bc tx))
       \<and> (\<forall>d idxs. CallBroadcast d idxs \<in> set (calls (processTx cfg reg att bc tx)) \<longrightarrow> k \<notin> set idxs)"
proof -
  from assms(1) have k: "k < length (Msgs tx)" by simp
  from assms(2) have "FilterDisabledCCTPRoutes cfg (Msgs tx ! k)"
    by (simp only: FilterDisabledCCTPRoutes_iff processTx_route_nth [OF k])
  then have "filtered cfg reg (Msgs tx ! k)" by (simp add: filtered_def)
  from processTx_filtered [OF k this, of att bc] show ?thesis by simp
qed


lemma StartProcessor_pass_shape:
  assumes "StartProcessor_pass cfg reg att bc w = Some (w', cs)"
  shows "\<exists>dequeuedTx queue tx.
           processingQueue w = dequeuedTx # queue
         \<and> State w' = (State w)(LookupKey (TxHash dequeuedTx) \<mapsto>
                          tx\<lparr>Msgs := msgs (processTx cfg reg att bc tx)\<rparr>)
         \<and> cs = calls (processTx cfg reg att bc tx)"
proof (cases "processingQueue w")
  case Nil
  with assms show ?thesis by (simp add: StartProcessor_pass_def)
next
  case (Cons dequeuedTx queue)
  let ?tx = "case State w (LookupKey (TxHash dequeuedTx)) of
               Some t \<Rightarrow> t
             | None \<Rightarrow> dequeuedTx\<lparr>Msgs := map (\<lambda>msg. msg\<lparr>Status := Created\<rparr>) (Msgs dequeuedTx)\<rparr>"
  from assms Cons have
    "State w' = (State w)(LookupKey (TxHash dequeuedTx) \<mapsto> ?tx\<lparr>Msgs := msgs (processTx cfg reg att bc ?tx)\<rparr>)
     \<and> cs = calls (processTx cfg reg att bc ?tx)"
    by (auto simp add: StartProcessor_pass_def Let_def)
  with Cons have "processingQueue w = dequeuedTx # queue
         \<and> State w' = (State w)(LookupKey (TxHash dequeuedTx) \<mapsto>
                          ?tx\<lparr>Msgs := msgs (processTx cfg reg att bc ?tx)\<rparr>)
         \<and> cs = calls (processTx cfg reg att bc ?tx)"
    by simp
  then show ?thesis by (intro exI)
qed

lemma StartProcessor_pass_storeFiltered:
  assumes "StartProcessor_pass cfg reg att bc w = Some (w', cs)"
    and "storeFiltered cfg w"
  shows "storeFiltered cfg w'"
proof -
  from StartProcessor_pass_shape [OF assms(1)] obtain dequeuedTx queue tx where
    "processingQueue w = dequeuedTx # queue"
    and st: "State w' = (State w)(LookupKey (TxHash dequeuedTx) \<mapsto>
                      tx\<lparr>Msgs := msgs (processTx cfg reg att bc tx)\<rparr>)"
    and "cs = calls (processTx cfg reg att bc tx)"
    by blast
  show ?thesis
    unfolding storeFiltered_def
  proof (intro allI impI ballI)
    fix h t m
    assume h: "State w' h = Some t" and m: "m \<in> set (Msgs t)"
      and d: "EnabledRoutes cfg (SourceDomain m) = None \<or>
              (\<exists>val. EnabledRoutes cfg (SourceDomain m) = Some val \<and> DestDomain m \<notin> set val)"
    show "Status m = Filtered"
    proof (cases "h = LookupKey (TxHash dequeuedTx)")
      case True
      with h st have t: "Msgs t = msgs (processTx cfg reg att bc tx)" by auto
      with m obtain k where k: "k < length (msgs (processTx cfg reg att bc tx))"
        and mk: "m = msgs (processTx cfg reg att bc tx) ! k"
        by (auto simp add: in_set_conv_nth)
      from processTx_disabled_route [OF k] d mk show ?thesis by simp
    next
      case False
      with h st have "State w h = Some t" by simp
      with assms(2) m d show ?thesis unfolding storeFiltered_def by blast
    qed
  qed
qed

lemma runWorker_storeFiltered:
  assumes "storeFiltered cfg w"
  shows "storeFiltered cfg (runWorker cfg reg env w)"
  using assms
proof (induction env arbitrary: w)
  case Nil
  then show ?case by simp
next
  case (Cons p env)
  obtain att bc where p: "p = (att, bc)" by (cases p)
  show ?case
  proof (cases "StartProcessor_pass cfg reg att bc w")
    case None
    with Cons.prems p show ?thesis by simp
  next
    case (Some r)
    obtain w' cs where r: "r = (w', cs)" by (cases r)
    from StartProcessor_pass_storeFiltered [OF Some [unfolded r] Cons.prems]
    have "storeFiltered cfg w'" .
    from Cons.IH [OF this] Some p r show ?thesis by simp
  qed
qed




lemma exampleWorker_pass:
  "StartProcessor_pass exampleConfig exampleRegistry attComplete bcOk exampleWorker =
     Some (\<lparr>State = [''0xaa'' \<mapsto>
                       \<lparr>TxHash = ''0xaa'',
                        Msgs = [exampleMsg\<lparr>Status := Complete, Attestation := ''0xAB''\<rparr>,
                                exampleMsg\<lparr>DestDomain := 5, Status := Filtered\<rparr>]\<rparr>],
            processingQueue = []\<rparr>,
           [CallCheckAttestation 0, CallBroadcast 4 [0]])"
  by (simp add: StartProcessor_pass_def LookupKey_def processTx_def processMsg_def attestStep_def
      exampleWorker_def exampleTx2_def exampleMsg_def exampleConfig_def exampleRegistry_def
      attComplete_def bcOk_def FilterDisabledCCTPRoutes_def filterInvalidDestinationCallers_def
      Let_def setStatus_def)







subsection \<open>An attested message after a failed broadcast\<close>

text \<open>
  A pass over a TxState whose messages are all Attested and pass the filters does
  nothing: no attestation call, no Broadcast call, no change of status, no requeue.
\<close>

lemma processMsg_Attested:
  assumes "Status (msgs s ! i) = Attested"
    and "\<not> FilterDisabledCCTPRoutes cfg (msgs s ! i)"
    and "\<not> filterInvalidDestinationCallers reg (msgs s ! i)"
  shows "processMsg cfg reg att s i = s"
  using assms by (simp add: processMsg_def)

lemma messageLoop_Attested:
  assumes "\<forall>i \<in> set js. Status (msgs s ! i) = Attested
             \<and> \<not> FilterDisabledCCTPRoutes cfg (msgs s ! i)
             \<and> \<not> filterInvalidDestinationCallers reg (msgs s ! i)"
  shows "foldl (processMsg cfg reg att) s js = s"
  using assms
proof (induction js)
  case Nil
  then show ?case by simp
next
  case (Cons j js)
  then have "processMsg cfg reg att s j = s" by (simp add: processMsg_Attested)
  with Cons show ?case by simp
qed

lemma processTx_Attested:
  assumes "\<forall>i < length (Msgs tx). Status (Msgs tx ! i) = Attested
             \<and> \<not> FilterDisabledCCTPRoutes cfg (Msgs tx ! i)
             \<and> \<not> filterInvalidDestinationCallers reg (Msgs tx ! i)"
  shows "processTx cfg reg att bc tx =
           \<lparr>msgs = Msgs tx, broadcastMsgs = [], requeue = False, calls = []\<rparr>"
proof -
  let ?init = "\<lparr>msgs = Msgs tx, broadcastMsgs = [], requeue = False, calls = []\<rparr>"
  have "foldl (processMsg cfg reg att) ?init [0 ..< length (Msgs tx)] = ?init"
    by (rule messageLoop_Attested) (use assms in simp)
  then show ?thesis by (simp add: processTx_def)
qed

text \<open>
  Claim C1, evaluated. The worker dequeues \<open>exampleTx\<close> for the first time; the
  attestation is complete and Broadcast returns an error, so the message is left Attested
  and the TxState is requeued. In the next pass the message is neither Created nor
  Pending, so nothing appends it to the fresh \<open>broadcastMsgs\<close>: the pass makes no call
  at all, although Broadcast would now succeed, does not requeue, and the message stays
  Attested in the state map with an empty queue.
\<close>

theorem C1_attested_not_rebroadcast:
  "(case StartProcessor_pass exampleConfig exampleRegistry attComplete bcFail
          \<lparr>State = Map.empty, processingQueue = [exampleTx]\<rparr> of
      None \<Rightarrow> False
    | Some (w1, calls1) \<Rightarrow>
        calls1 = [CallCheckAttestation 0, CallBroadcast 4 [0]]
      \<and> map (\<lambda>tx. map Status (Msgs tx)) (processingQueue w1) = [[Attested]]
      \<and> (case StartProcessor_pass exampleConfig exampleRegistry attComplete bcOk w1 of
            None \<Rightarrow> False
          | Some (w2, calls2) \<Rightarrow>
              calls2 = []
            \<and> processingQueue w2 = []
            \<and> map_option (\<lambda>tx. map Status (Msgs tx)) (State w2 ''0xaa'') = Some [Attested]))"
  by (simp add: StartProcessor_pass_def LookupKey_def processTx_def processMsg_def attestStep_def
      exampleTx_def exampleMsg_def exampleConfig_def exampleRegistry_def attComplete_def
      bcFail_def bcOk_def FilterDisabledCCTPRoutes_def filterInvalidDestinationCallers_def Let_def)

section \<open>Properties of the Noble listener\<close>

lemma attrState_other: "Key a \<noteq> ''message'' \<Longrightarrow> attrState lib h a = None"
  by (simp add: attrState_def)

lemma attrState_message:
  "Key a = ''message'' \<Longrightarrow>
     attrState lib h a =
       (case DecodeString lib (take (length (Value a) - 2) (drop 1 (Value a))) of
          None \<Rightarrow> None
        | Some raw \<Rightarrow> map_option (newMessageState lib h raw) (Parse lib raw))"
  by (simp add: attrState_def)

lemma attrLoop_spec:
  assumes "\<forall>attr \<in> set attrs. Key attr = ''message'' \<longrightarrow> 2 \<le> length (Value attr)"
  shows "attrLoop lib h attrs (parsed, acc) =
           Some (parsed \<or> List.map_filter (attrState lib h) attrs \<noteq> [],
                 acc @ List.map_filter (attrState lib h) attrs)"
  using assms
proof (induction attrs arbitrary: parsed acc)
  case Nil
  then show ?case by (simp add: List.map_filter_simps)
next
  case (Cons a attrs)
  then have ih: "\<And>parsed acc. attrLoop lib h attrs (parsed, acc) =
           Some (parsed \<or> List.map_filter (attrState lib h) attrs \<noteq> [],
                 acc @ List.map_filter (attrState lib h) attrs)"
    by simp
  show ?case
  proof (cases "Key a = ''message''")
    case False
    then show ?thesis by (simp add: ih List.map_filter_simps attrState_other)
  next
    case True
    with Cons.prems have len: "2 \<le> length (Value a)" by simp
    then have sq: "stripQuotes (Value a) = Some (take (length (Value a) - 2) (drop 1 (Value a)))"
      by (simp add: stripQuotes_def)
    show ?thesis using True
      by (simp add: ih sq List.map_filter_simps attrState_message split: option.splits)
  qed
qed

lemma attrLoop_panic:
  "attrLoop lib h attrs st = None \<longleftrightarrow>
     (\<exists>attr \<in> set attrs. Key attr = ''message'' \<and> length (Value attr) < 2)"
proof (induction attrs arbitrary: st)
  case Nil
  then show ?case by simp
next
  case (Cons a attrs)
  obtain parsed acc where st: "st = (parsed, acc)" by (cases st)
  show ?case unfolding st
    by (simp add: Cons.IH stripQuotes_def split: option.splits)
qed

lemma eventLoop_spec:
  assumes "quoted events"
  shows "eventLoop lib h events acc =
           (if \<forall>event \<in> set events. isMessageSent event \<longrightarrow> eventStates lib h event \<noteq> []
            then Inr (acc @ concat (map (eventStates lib h) (filter isMessageSent events)))
            else Inl Error)"
  using assms
proof (induction events arbitrary: acc)
  case Nil
  then show ?case by simp
next
  case (Cons e events)
  from Cons.prems have q: "quoted events" by (simp add: quoted_def)
  note ih = Cons.IH [OF q]
  show ?case
  proof (cases "isMessageSent e")
    case False
    then show ?thesis using ih by (simp add: isMessageSent_def [of e])
  next
    case True
    with Cons.prems have "\<forall>attr \<in> set (Attributes e). Key attr = ''message'' \<longrightarrow> 2 \<le> length (Value attr)"
      by (simp add: quoted_def)
    from attrLoop_spec [OF this, of lib h False acc]
    have a: "attrLoop lib h (Attributes e) (False, acc) =
               Some (eventStates lib h e \<noteq> [], acc @ eventStates lib h e)"
      by (simp add: eventStates_def)
    show ?thesis using True a ih by (simp add: isMessageSent_def [of e])
  qed
qed

lemma hexEncode_set:
  assumes "length table = 16"
  shows "set (hexEncode table bs) \<subseteq> set table"
proof -
  have "\<And>b :: 8 word. table ! (unat b div 16) \<in> set table \<and> table ! (unat b mod 16) \<in> set table"
  proof -
    fix b :: "8 word"
    have "unat b < 256" using unsigned_less [of b] by simp
    then have "unat b div 16 < 16" "unat b mod 16 < 16" by simp_all
    with assms show "table ! (unat b div 16) \<in> set table \<and> table ! (unat b mod 16) \<in> set table"
      by simp
  qed
  then show ?thesis by (auto simp add: hexEncode_def)
qed

lemma EncodeToString_lowercase: "set (EncodeToString bs) \<subseteq> set ''0123456789abcdef''"
  unfolding EncodeToString_def by (rule hexEncode_set) simp

lemma attrLoop_inv:
  assumes "attrLoop lib h attrs (parsed, acc) = Some (parsed', acc')"
    and "\<forall>ms \<in> set acc. P ms"
    and "\<And>raw msg. P (newMessageState lib h raw msg)"
  shows "\<forall>ms \<in> set acc'. P ms"
  using assms(1,2)
proof (induction attrs arbitrary: parsed acc)
  case Nil
  then show ?case by simp
next
  case (Cons a attrs)
  show ?case
  proof (cases "Key a = ''message''")
    case False
    with Cons.prems(1) have "attrLoop lib h attrs (parsed, acc) = Some (parsed', acc')" by simp
    from Cons.IH [OF this Cons.prems(2)] show ?thesis .
  next
    case True
    from Cons.prems(1) True obtain p2 acc2
      where step: "attrLoop lib h attrs (p2, acc2) = Some (parsed', acc')"
        and acc2: "acc2 = acc \<or> (\<exists>raw msg. acc2 = acc @ [newMessageState lib h raw msg])"
      by (auto split: option.splits)
    from acc2 Cons.prems(2) assms(3) have "\<forall>ms \<in> set acc2. P ms" by auto
    from Cons.IH [OF step this] show ?thesis .
  qed
qed

lemma eventLoop_inv:
  assumes "eventLoop lib h events acc = Inr states"
    and "\<forall>ms \<in> set acc. P ms"
    and "\<And>raw msg. P (newMessageState lib h raw msg)"
  shows "\<forall>ms \<in> set states. P ms"
  using assms(1,2)
proof (induction events arbitrary: acc)
  case Nil
  then show ?case by simp
next
  case (Cons e events)
  show ?case
  proof (cases "Type e = ''circle.cctp.v1.MessageSent''")
    case False
    with Cons.prems(1) have "eventLoop lib h events acc = Inr states" by simp
    from Cons.IH [OF this Cons.prems(2)] show ?thesis .
  next
    case True
    from Cons.prems(1) True obtain parsed acc2
      where a: "attrLoop lib h (Attributes e) (False, acc) = Some (parsed, acc2)"
        and step: "eventLoop lib h events acc2 = Inr states"
      by (auto split: option.splits if_splits)
    have "\<forall>ms \<in> set acc2. P ms"
      by (rule attrLoop_inv [OF a Cons.prems(2)]) (rule assms(3))
    from Cons.IH [OF step this] show ?thesis .
  qed
qed

text \<open>
  Claim C6. A transaction with a nonzero result code yields no message states and no
  error. Every message state that \<open>txToMessageState\<close> returns comes from a
  transaction with code 0, has as IrisLookupId the lower case hexadecimal encoding of the
  Keccak-256 hash of its MsgSentBytes, as SourceTxHash the string of the transaction
  hash, and the status Created.
\<close>

theorem C6_noble_message_states:
  "(Code tx \<noteq> 0 \<longrightarrow> txToMessageState lib tx = Inr [])
   \<and> (\<forall>states ms. txToMessageState lib tx = Inr states \<and> ms \<in> set states \<longrightarrow>
          Code tx = 0
        \<and> IrisLookupId ms = EncodeToString (Keccak256 lib (MsgSentBytes ms))
        \<and> set (IrisLookupId ms) \<subseteq> set ''0123456789abcdef''
        \<and> SourceTxHash ms = HexBytes_String (Hash tx)
        \<and> Status ms = Created)"
proof (rule conjI)
  show "Code tx \<noteq> 0 \<longrightarrow> txToMessageState lib tx = Inr []"
    by (simp add: txToMessageState_def)
next
  show "\<forall>states ms. txToMessageState lib tx = Inr states \<and> ms \<in> set states \<longrightarrow>
          Code tx = 0
        \<and> IrisLookupId ms = EncodeToString (Keccak256 lib (MsgSentBytes ms))
        \<and> set (IrisLookupId ms) \<subseteq> set ''0123456789abcdef''
        \<and> SourceTxHash ms = HexBytes_String (Hash tx)
        \<and> Status ms = Created"
  proof (intro allI impI)
  fix states ms
  assume a: "txToMessageState lib tx = Inr states \<and> ms \<in> set states"
  let ?P = "\<lambda>ms. IrisLookupId ms = EncodeToString (Keccak256 lib (MsgSentBytes ms))
        \<and> SourceTxHash ms = HexBytes_String (Hash tx) \<and> Status ms = Created"
  have c: "Code tx = 0" using a by (auto simp add: txToMessageState_def split: if_splits)
  with a have e: "eventLoop lib (Hash tx) (Events tx) [] = Inr states"
    by (simp add: txToMessageState_def)
  have "\<forall>ms \<in> set states. ?P ms"
    using eventLoop_inv [where P = "?P", OF e] by (simp add: newMessageState_def)
  with a have p: "?P ms" by blast
  then have "set (IrisLookupId ms) \<subseteq> set ''0123456789abcdef''"
    using EncodeToString_lowercase [of "Keccak256 lib (MsgSentBytes ms)"] by simp
  with c p show "Code tx = 0
        \<and> IrisLookupId ms = EncodeToString (Keccak256 lib (MsgSentBytes ms))
        \<and> set (IrisLookupId ms) \<subseteq> set ''0123456789abcdef''
        \<and> SourceTxHash ms = HexBytes_String (Hash tx)
        \<and> Status ms = Created" by simp
  qed
qed

lemma goodEvent_states:
  "txToMessageState exampleLibrary (exampleResultTx [goodEvent]) =
     Inr [newMessageState exampleLibrary [0xAB, 0x01] [65, 66, 49, 50]
            \<lparr>MsgSourceDomain = 4, MsgDestinationDomain = 65, MsgNonce = 66,
             MsgDestinationCaller = [49, 50]\<rparr>]"
  by (simp add: txToMessageState_def exampleResultTx_def goodEvent_def exampleAttr_def
      stripQuotes_def exampleLibrary_def)

theorem C6_noble_message_states_witness:
  "\<exists>ms. txToMessageState exampleLibrary (exampleResultTx [goodEvent]) = Inr [ms] \<and> ms \<in> set [ms]
     \<and> Code (exampleResultTx [goodEvent]) = 0
     \<and> IrisLookupId ms = ''32314241''
     \<and> SourceTxHash ms = ''AB01''
     \<and> Status ms = Created"
proof -
  let ?ms = "newMessageState exampleLibrary [0xAB, 0x01] [65, 66, 49, 50]
            \<lparr>MsgSourceDomain = 4, MsgDestinationDomain = 65, MsgNonce = 66,
             MsgDestinationCaller = [49, 50]\<rparr>"
  have h: "txToMessageState exampleLibrary (exampleResultTx [goodEvent]) = Inr [?ms] \<and> ?ms \<in> set [?ms]"
    using goodEvent_states by simp
  from C6_noble_message_states [of "exampleResultTx [goodEvent]" exampleLibrary] h
  have "Code (exampleResultTx [goodEvent]) = 0
        \<and> IrisLookupId ?ms = EncodeToString (Keccak256 exampleLibrary (MsgSentBytes ?ms))
        \<and> SourceTxHash ?ms = HexBytes_String (Hash (exampleResultTx [goodEvent]))
        \<and> Status ?ms = Created"
    by blast
  moreover have "EncodeToString (Keccak256 exampleLibrary (MsgSentBytes ?ms)) = ''32314241''"
    by (simp add: newMessageState_def exampleLibrary_def EncodeToString_def hexEncode_def)
  moreover have "HexBytes_String (Hash (exampleResultTx [goodEvent])) = ''AB01''"
    by (simp add: exampleResultTx_def HexBytes_String_def hexEncode_def)
  ultimately show ?thesis using h by auto
qed

text \<open>
  Claim C10. When every \<open>message\<close> attribute of every MessageSent event has a value
  of at least two bytes, \<open>txToMessageState\<close> does not panic. Without that
  precondition it can: a successful transaction with a MessageSent event whose
  \<open>message\<close> value is shorter than two bytes (the empty value, for one) makes the
  slice expression panic instead of returning an error.
\<close>

theorem C10_slice_panic:
  "(quoted (Events tx) \<longrightarrow> txToMessageState lib tx \<noteq> Inl Panic)
   \<and> (length v < 2 \<longrightarrow> txToMessageState lib (panicTx v) = Inl Panic)"
proof (intro conjI impI)
  assume "quoted (Events tx)"
  from eventLoop_spec [OF this, of lib "Hash tx" "[]"]
  show "txToMessageState lib tx \<noteq> Inl Panic"
    by (simp add: txToMessageState_def)
next
  assume "length v < 2"
  then show "txToMessageState lib (panicTx v) = Inl Panic"
    by (simp add: txToMessageState_def panicTx_def stripQuotes_def)
qed

theorem C10_slice_panic_witness:
  "quoted (Events (exampleResultTx [goodEvent]))
   \<and> txToMessageState exampleLibrary (exampleResultTx [goodEvent]) \<noteq> Inl Panic
   \<and> length '''' < 2
   \<and> txToMessageState exampleLibrary (panicTx '''') = Inl Panic"
proof -
  have h1: "quoted (Events (exampleResultTx [goodEvent]))"
    by (simp add: quoted_def exampleResultTx_def goodEvent_def exampleAttr_def)
  have h2: "length '''' < 2" by simp
  from C10_slice_panic [of "exampleResultTx [goodEvent]" exampleLibrary "''''"] h1 h2
  show ?thesis by simp
qed

section \<open>Properties of the Ethereum listener\<close>

text \<open>
  On a channel every log that parses is sent as a TxState of its own. On the nil channel
  \<open>consumeHistroy\<close> returns only if no log parses; otherwise it blocks for ever at the
  first log that parses.
\<close>

lemma consumeHistroy_Chan:
  "consumeHistroy parse history (Chan q) =
     Some (Chan (q @ map newTxState (List.map_filter parse history)))"
  by (induction history arbitrary: q) (simp_all add: List.map_filter_simps split: option.splits)

lemma consumeHistroy_NilChan:
  "consumeHistroy parse history NilChan =
     (if List.map_filter parse history = [] then Some NilChan else None)"
  by (induction history) (simp_all add: List.map_filter_simps split: option.splits)

lemma consumeHistroy_skips:
  "consumeHistroy parse history queue =
     consumeHistroy parse (filter (\<lambda>l. parse l \<noteq> None) history) queue"
proof (induction history arbitrary: queue)
  case Nil
  then show ?case by simp
next
  case (Cons l history)
  show ?case
  proof (cases "parse l")
    case None
    then show ?thesis using Cons.IH by simp
  next
    case (Some m)
    then show ?thesis using Cons.IH by (simp split: option.splits)
  qed
qed

lemma parses_simps:
  "parses parse (StreamLog l) \<longleftrightarrow> parse l \<noteq> None"
  "parses parse Default"
  by (simp_all add: parses_def)

lemma consumeStream_skips:
  "consumeStream parse sel txState queue =
     consumeStream parse (filter (parses parse) sel) txState queue"
proof (induction sel arbitrary: txState queue)
  case Nil
  then show ?case by simp
next
  case (Cons x sel)
  show ?case
  proof (cases x)
    case (StreamLog l)
    then show ?thesis using Cons.IH
      by (cases "parse l") (simp_all add: parses_simps split: option.splits)
  next
    case Default
    then show ?thesis using Cons.IH by (simp add: parses_simps split: option.splits)
  qed
qed

text \<open>
  The stream path groups by transaction hash: logs that parse to messages with the hash
  of the TxState in hand are appended to it, as long as no round of the select takes the
  default branch in between.
\<close>

lemma consumeStream_run:
  assumes "\<forall>l \<in> set ls. \<exists>m. parse l = Some m \<and> SourceTxHash m = TxHash t"
  shows "consumeStream parse (map StreamLog ls @ rest) (Some t) queue =
           consumeStream parse rest (Some (t\<lparr>Msgs := Msgs t @ List.map_filter parse ls\<rparr>)) queue"
  using assms
proof (induction ls arbitrary: t)
  case Nil
  then show ?case by (simp add: List.map_filter_simps)
next
  case (Cons l ls)
  from Cons.prems obtain m where m: "parse l = Some m" "SourceTxHash m = TxHash t" by auto
  let ?t = "t\<lparr>Msgs := Msgs t @ [m]\<rparr>"
  have "\<forall>l \<in> set ls. \<exists>m. parse l = Some m \<and> SourceTxHash m = TxHash ?t"
    using Cons.prems by simp
  from Cons.IH [OF this] m show ?case by (simp add: List.map_filter_simps)
qed

text \<open>
  When the default branch runs between two logs of one transaction, the TxState in hand
  is sent and the second log starts a new one. On the nil channel that first send blocks
  for ever.
\<close>

lemma consumeStream_idle_split:
  "consumeStream exampleParse [StreamLog burnLog, Default, StreamLog forwardLog, Default] None (Chan []) =
     Some (None, Chan
       [\<lparr>TxHash = ''0xaa'', Msgs = [exampleMsg\<lparr>SourceTxHash := ''0xaa'', MsgSentBytes := [1]\<rparr>]\<rparr>,
        \<lparr>TxHash = ''0xaa'', Msgs = [exampleMsg\<lparr>SourceTxHash := ''0xaa'', MsgSentBytes := [7]\<rparr>]\<rparr>])"
  by (simp add: exampleParse_def burnLog_def forwardLog_def newTxState_def exampleMsg_def)

lemma consumeStream_nil_blocks:
  "consumeStream exampleParse [StreamLog burnLog, Default] None NilChan = None"
  by (simp add: exampleParse_def burnLog_def)




text \<open>
  Claim C4, evaluated. Two MessageSent logs of one transaction (the same hash) come
  through the history path as two TxStates of one message each, where the stream path
  puts them into one TxState (both on a channel; on the nil channel that the variable
  holds in this source the history path delivers nothing at all, it blocks at the first
  log). The worker then stores the first TxState under the hash; when it dequeues the
  second one it finds the hash in the state map and works on the stored TxState again, so
  the second message is never attested or broadcast: the second pass makes no call and
  the state map holds the first message only.
\<close>

theorem C4_history_not_grouped:
  "consumeHistroy exampleParse [burnLog, forwardLog] (Chan []) =
     Some (Chan
       [\<lparr>TxHash = ''0xaa'', Msgs = [exampleMsg\<lparr>SourceTxHash := ''0xaa'', MsgSentBytes := [1]\<rparr>]\<rparr>,
        \<lparr>TxHash = ''0xaa'', Msgs = [exampleMsg\<lparr>SourceTxHash := ''0xaa'', MsgSentBytes := [7]\<rparr>]\<rparr>])
   \<and> consumeHistroy exampleParse [burnLog, forwardLog] NilChan = None
   \<and> consumeStream exampleParse [StreamLog burnLog, StreamLog forwardLog, Default] None (Chan []) =
       Some (None, Chan
         [\<lparr>TxHash = ''0xaa'', Msgs = [exampleMsg\<lparr>SourceTxHash := ''0xaa'', MsgSentBytes := [1]\<rparr>,
                                        exampleMsg\<lparr>SourceTxHash := ''0xaa'', MsgSentBytes := [7]\<rparr>]\<rparr>])
   \<and> (case StartProcessor_pass exampleConfig exampleRegistry attComplete bcOk
          \<lparr>State = Map.empty,
           processingQueue = delivered (consumeHistroy exampleParse [burnLog, forwardLog] (Chan []))\<rparr> of
        None \<Rightarrow> False
      | Some (w1, calls1) \<Rightarrow>
          calls1 = [CallCheckAttestation 0, CallBroadcast 4 [0]]
        \<and> map (\<lambda>tx. map MsgSentBytes (Msgs tx)) (processingQueue w1) = [[[7]]]
        \<and> (case StartProcessor_pass exampleConfig exampleRegistry attComplete bcOk w1 of
              None \<Rightarrow> False
            | Some (w2, calls2) \<Rightarrow>
                calls2 = []
              \<and> processingQueue w2 = []
              \<and> map_option (\<lambda>tx. map (\<lambda>m. (MsgSentBytes m, Status m)) (Msgs tx)) (State w2 ''0xaa'')
                  = Some [([1], Complete)]))"
proof -
  have a: "consumeHistroy exampleParse [burnLog, forwardLog] (Chan []) =
     Some (Chan
       [\<lparr>TxHash = ''0xaa'', Msgs = [exampleMsg\<lparr>SourceTxHash := ''0xaa'', MsgSentBytes := [1]\<rparr>]\<rparr>,
        \<lparr>TxHash = ''0xaa'', Msgs = [exampleMsg\<lparr>SourceTxHash := ''0xaa'', MsgSentBytes := [7]\<rparr>]\<rparr>])"
    by (simp add: exampleParse_def burnLog_def forwardLog_def newTxState_def exampleMsg_def)
  have n: "consumeHistroy exampleParse [burnLog, forwardLog] NilChan = None"
    by (simp add: exampleParse_def burnLog_def)
  have b: "consumeStream exampleParse [StreamLog burnLog, StreamLog forwardLog, Default] None (Chan []) =
       Some (None, Chan
         [\<lparr>TxHash = ''0xaa'', Msgs = [exampleMsg\<lparr>SourceTxHash := ''0xaa'', MsgSentBytes := [1]\<rparr>,
                                        exampleMsg\<lparr>SourceTxHash := ''0xaa'', MsgSentBytes := [7]\<rparr>]\<rparr>])"
    by (simp add: exampleParse_def burnLog_def forwardLog_def newTxState_def exampleMsg_def)
  have c: "(case StartProcessor_pass exampleConfig exampleRegistry attComplete bcOk
          \<lparr>State = Map.empty,
           processingQueue = delivered (consumeHistroy exampleParse [burnLog, forwardLog] (Chan []))\<rparr> of
        None \<Rightarrow> False
      | Some (w1, calls1) \<Rightarrow>
          calls1 = [CallCheckAttestation 0, CallBroadcast 4 [0]]
        \<and> map (\<lambda>tx. map MsgSentBytes (Msgs tx)) (processingQueue w1) = [[[7]]]
        \<and> (case StartProcessor_pass exampleConfig exampleRegistry attComplete bcOk w1 of
              None \<Rightarrow> False
            | Some (w2, calls2) \<Rightarrow>
                calls2 = []
              \<and> processingQueue w2 = []
              \<and> map_option (\<lambda>tx. map (\<lambda>m. (MsgSentBytes m, Status m)) (Msgs tx)) (State w2 ''0xaa'')
                  = Some [([1], Complete)]))"
    by (simp add: StartProcessor_pass_def LookupKey_def processTx_def processMsg_def attestStep_def
        exampleParse_def burnLog_def forwardLog_def newTxState_def
        exampleMsg_def exampleConfig_def exampleRegistry_def attComplete_def
        bcOk_def FilterDisabledCCTPRoutes_def filterInvalidDestinationCallers_def Let_def setStatus_def)
  from a n b c show ?thesis by (intro conjI)
qed

subsection \<open>The historical backfill\<close>

lemma sint_small:
  fixes w :: "64 word"
  assumes "unat w < 2 ^ 63"
  shows "sint w = int (unat w)"
proof -
  have u: "uint w = int (unat w)" by (rule uint_nat)
  have "int (unat w) < int (2 ^ 63)" using assms by (simp only: of_nat_less_iff)
  then have lt: "uint w < 2 ^ 63" by (simp only: u) simp
  have ge: "- (2 ^ 63) \<le> uint w"
  proof -
    have "(0::int) \<le> uint w" by simp
    moreover have "- (2 ^ 63) \<le> (0::int)" by simp
    ultimately show ?thesis by (rule order_trans [rotated])
  qed
  have "signed_take_bit 63 (uint w) = uint w"
    using ge lt by (rule signed_take_bit_int_eq_self)
  moreover have "sint w = signed_take_bit 63 (uint w)"
    by (simp only: sint_uint) simp
  ultimately show ?thesis by (simp only: u)
qed

lemma chunks_count:
  assumes "s < e"
  shows "(e - s + 99) div 100 = Suc ((e - (s + 100) + 99) div 100)"
proof (cases "s + 100 \<le> e")
  case True
  then have "e - s + 99 = (e - (s + 100) + 99) + 100" by simp
  then have "(e - s + 99) div 100 = ((e - (s + 100) + 99) + 100) div 100" by (rule arg_cong)
  also have "\<dots> = Suc ((e - (s + 100) + 99) div 100)" by (simp only: div_add_self2)
  finally show ?thesis .
next
  case False
  then have z: "e - (s + 100) = 0" by simp
  have "100 * 1 \<le> e - s + 99" "e - s + 99 < 100 * Suc 1" using False assms by simp_all
  then have "(e - s + 99) div 100 = 1" by (rule div_nat_eqI)
  with z show ?thesis by simp
qed

lemma upt_Suc_Cons: "[0 ..< Suc m] = 0 # map Suc [0 ..< m]"
proof -
  have "[0 ..< Suc m] = 0 # [Suc 0 ..< Suc m]" by (rule upt_conv_Cons) simp
  also have "[Suc 0 ..< Suc m] = map Suc [0 ..< m]" by (rule map_Suc_upt [symmetric])
  finally show ?thesis .
qed

lemma chunks_step:
  assumes "s < e"
  shows "chunks s e = \<lparr>FromBlock = int s, ToBlock = int (min (s + 100) e)\<rparr> # chunks (s + 100) e"
proof -
  have c: "chunk s e \<circ> Suc = chunk (s + 100) e"
    by (rule ext) (simp add: chunk_def)
  have "chunks s e = map (chunk s e) (0 # map Suc [0 ..< (e - (s + 100) + 99) div 100])"
    unfolding chunks_def chunks_count [OF assms] upt_Suc_Cons ..
  also have "\<dots> = chunk s e 0 # map (chunk (s + 100) e) [0 ..< (e - (s + 100) + 99) div 100]"
    by (simp only: list.map map_map c)
  also have "\<dots> = \<lparr>FromBlock = int s, ToBlock = int (min (s + 100) e)\<rparr> # chunks (s + 100) e"
    by (simp add: chunks_def chunk_def)
  finally show ?thesis .
qed

lemma chunks_empty: "\<not> s < e \<Longrightarrow> chunks s e = []"
  by (simp add: chunks_def)

text \<open>
  The loop issues the chunks in order. It either returns after the last chunk, or it
  stops for ever in \<open>consumeHistroy\<close> right after one of them. It returns when the
  variable holds a channel, and also when no query returns a log that parses.
\<close>

lemma historyLoop_chunks:
  assumes "unat endBlock < 2 ^ 63"
  shows "\<exists>qs r. historyLoop Q parse start endBlock acc queue = Some (acc @ qs, r)
           \<and> (\<exists>rest. chunks (unat start) (unat endBlock) = qs @ rest)
           \<and> (r \<noteq> None \<longrightarrow> qs = chunks (unat start) (unat endBlock))
           \<and> ((\<exists>c. queue = Chan c) \<longrightarrow> r \<noteq> None)
           \<and> ((\<forall>x \<in> set (chunks (unat start) (unat endBlock)). List.map_filter parse (Q x) = [])
                 \<longrightarrow> r \<noteq> None)"
proof (induction "unat endBlock - unat start" arbitrary: start acc queue rule: less_induct)
  case less
  show ?case
  proof (cases "start < endBlock")
    case False
    then have "\<not> unat start < unat endBlock" by (simp add: word_less_nat_alt)
    then have e: "chunks (unat start) (unat endBlock) = []" by (rule chunks_empty)
    have "historyLoop Q parse start endBlock acc queue = Some (acc @ [], Some queue)"
      using False by (subst historyLoop.simps) simp
    with e have "historyLoop Q parse start endBlock acc queue = Some (acc @ [], Some queue)
           \<and> (\<exists>rest. chunks (unat start) (unat endBlock) = [] @ rest)
           \<and> (Some queue \<noteq> None \<longrightarrow> [] = chunks (unat start) (unat endBlock))
           \<and> ((\<exists>c. queue = Chan c) \<longrightarrow> Some queue \<noteq> None)
           \<and> ((\<forall>x \<in> set (chunks (unat start) (unat endBlock)). List.map_filter parse (Q x) = [])
                 \<longrightarrow> Some queue \<noteq> None)"
      by simp
    then show ?thesis by (intro exI)
  next
    case True
    then have lt: "unat start < unat endBlock" by (simp add: word_less_nat_alt)
    with assms have s63: "unat start < 2 ^ 63" by simp
    have "unat start + unat (100 :: 64 word) < 2 ^ LENGTH(64)" using s63 by simp
    then have u: "unat (start + 100) = unat start + 100"
      by (simp add: unat_add_lem [THEN iffD1])
    have gt: "start + 100 > endBlock \<longleftrightarrow> unat start + 100 > unat endBlock"
      by (simp add: word_less_nat_alt u)
    have tb: "sint (if start + 100 > endBlock then endBlock else start + 100)
                = int (min (unat start + 100) (unat endBlock))"
    proof (cases "start + 100 > endBlock")
      case True
      with gt assms show ?thesis by (simp add: sint_small)
    next
      case False
      with gt have le: "unat start + 100 \<le> unat endBlock" by simp
      with assms have "unat (start + 100) < 2 ^ 63" by (simp add: u)
      with False le show ?thesis by (simp add: sint_small u)
    qed
    have fb: "sint start = int (unat start)" using s63 by (rule sint_small)
    let ?c = "\<lparr>FromBlock = int (unat start),
                ToBlock = int (min (unat start + 100) (unat endBlock))\<rparr>"
    have step: "chunks (unat start) (unat endBlock) = ?c # chunks (unat (start + 100)) (unat endBlock)"
      by (simp add: chunks_step [OF lt] u)
    have q: "\<lparr>FromBlock = sint start,
               ToBlock = sint (if start + 100 > endBlock then endBlock else start + 100)\<rparr> = ?c"
      by (simp only: tb fb)
    have unfold: "historyLoop Q parse start endBlock acc queue =
            (case consumeHistroy parse (Q ?c) queue of
               None \<Rightarrow> Some (acc @ [?c], None)
             | Some queue' \<Rightarrow> historyLoop Q parse (start + 100) endBlock (acc @ [?c]) queue')"
      by (subst historyLoop.simps) (simp only: True if_True Let_def q)
    show ?thesis
    proof (cases "consumeHistroy parse (Q ?c) queue")
      case None
      then have h: "historyLoop Q parse start endBlock acc queue = Some (acc @ [?c], None)"
        by (simp add: unfold)
      have nochan: "\<not> (\<exists>c. queue = Chan c)" using None by (auto simp add: consumeHistroy_Chan)
      have "queue = NilChan" using nochan by (cases queue) simp_all
      with None have "List.map_filter parse (Q ?c) \<noteq> []"
        by (simp add: consumeHistroy_NilChan split: if_splits)
      then have some: "\<not> (\<forall>x \<in> set (chunks (unat start) (unat endBlock)). List.map_filter parse (Q x) = [])"
        by (simp add: step)
      have "historyLoop Q parse start endBlock acc queue = Some (acc @ [?c], None)
           \<and> (\<exists>rest. chunks (unat start) (unat endBlock) = [?c] @ rest)
           \<and> (None \<noteq> (None :: Chan option) \<longrightarrow> [?c] = chunks (unat start) (unat endBlock))
           \<and> ((\<exists>c. queue = Chan c) \<longrightarrow> None \<noteq> (None :: Chan option))
           \<and> ((\<forall>x \<in> set (chunks (unat start) (unat endBlock)). List.map_filter parse (Q x) = [])
                 \<longrightarrow> None \<noteq> (None :: Chan option))"
        using h step nochan some by simp
      then show ?thesis by (intro exI)
    next
      case (Some queue')
      have m: "unat endBlock - unat (start + 100) < unat endBlock - unat start"
        using lt u by simp
      from less [OF m, of "acc @ [?c]" queue'] obtain qs where
        "\<exists>r. historyLoop Q parse (start + 100) endBlock (acc @ [?c]) queue' = Some ((acc @ [?c]) @ qs, r)
          \<and> (\<exists>rest. chunks (unat (start + 100)) (unat endBlock) = qs @ rest)
          \<and> (r \<noteq> None \<longrightarrow> qs = chunks (unat (start + 100)) (unat endBlock))
          \<and> ((\<exists>c. queue' = Chan c) \<longrightarrow> r \<noteq> None)
          \<and> ((\<forall>x \<in> set (chunks (unat (start + 100)) (unat endBlock)). List.map_filter parse (Q x) = [])
                \<longrightarrow> r \<noteq> None)" ..
      then obtain r where
        all: "historyLoop Q parse (start + 100) endBlock (acc @ [?c]) queue' = Some ((acc @ [?c]) @ qs, r)
          \<and> (\<exists>rest. chunks (unat (start + 100)) (unat endBlock) = qs @ rest)
          \<and> (r \<noteq> None \<longrightarrow> qs = chunks (unat (start + 100)) (unat endBlock))
          \<and> ((\<exists>c. queue' = Chan c) \<longrightarrow> r \<noteq> None)
          \<and> ((\<forall>x \<in> set (chunks (unat (start + 100)) (unat endBlock)). List.map_filter parse (Q x) = [])
                \<longrightarrow> r \<noteq> None)" ..
      note ih = all [THEN conjunct1] all [THEN conjunct2, THEN conjunct1]
        all [THEN conjunct2, THEN conjunct2, THEN conjunct1]
        all [THEN conjunct2, THEN conjunct2, THEN conjunct2, THEN conjunct1]
        all [THEN conjunct2, THEN conjunct2, THEN conjunct2, THEN conjunct2]
      have h: "historyLoop Q parse start endBlock acc queue = Some (acc @ (?c # qs), r)"
        using Some ih(1) by (simp add: unfold)
      have chan: "(\<exists>c. queue = Chan c) \<longrightarrow> (\<exists>c. queue' = Chan c)"
        using Some by (auto simp add: consumeHistroy_Chan)
      from ih(2) obtain rest where "chunks (unat (start + 100)) (unat endBlock) = qs @ rest" by blast
      then have p: "\<exists>rest. chunks (unat start) (unat endBlock) = (?c # qs) @ rest"
        by (simp add: step)
      have a: "r \<noteq> None \<longrightarrow> ?c # qs = chunks (unat start) (unat endBlock)"
        using ih(3) by (simp add: step)
      have b: "(\<exists>c. queue = Chan c) \<longrightarrow> r \<noteq> None" using chan ih(4) by blast
      have c: "(\<forall>x \<in> set (chunks (unat start) (unat endBlock)). List.map_filter parse (Q x) = [])
                 \<longrightarrow> r \<noteq> None"
        using ih(5) by (simp add: step)
      have "historyLoop Q parse start endBlock acc queue = Some (acc @ (?c # qs), r)
           \<and> (\<exists>rest. chunks (unat start) (unat endBlock) = (?c # qs) @ rest)
           \<and> (r \<noteq> None \<longrightarrow> ?c # qs = chunks (unat start) (unat endBlock))
           \<and> ((\<exists>c. queue = Chan c) \<longrightarrow> r \<noteq> None)
           \<and> ((\<forall>x \<in> set (chunks (unat start) (unat endBlock)). List.map_filter parse (Q x) = [])
                 \<longrightarrow> r \<noteq> None)"
        using h p a b c by (intro conjI)
      then show ?thesis by (intro exI)
    qed
  qed
qed

lemma covered_chunks:
  assumes "s < e"
  shows "covered (chunks s e) = {int s .. int e}"
  using assms
proof (induction "e - s" arbitrary: s rule: less_induct)
  case less
  show ?case
  proof (cases "s + 100 < e")
    case True
    then have m: "e - (s + 100) < e - s" using less.prems by simp
    have "covered (chunks s e) = {int s .. int (s + 100)} \<union> covered (chunks (s + 100) e)"
      using True by (simp add: chunks_step [OF less.prems] covered_def min_def)
    also have "\<dots> = {int s .. int (s + 100)} \<union> {int (s + 100) .. int e}"
      by (simp add: less(1) [OF m True])
    also have "\<dots> = {int s .. int e}" using True by auto
    finally show ?thesis .
  next
    case False
    then have "chunks (s + 100) e = []" by (simp add: chunks_empty)
    with False show ?thesis
      by (simp add: chunks_step [OF less.prems] covered_def min_def)
  qed
qed


lemma chunk_span:
  assumes "q \<in> set (chunks s e)"
  shows "FromBlock q < ToBlock q \<and> ToBlock q - FromBlock q \<le> 100 \<and> ToBlock q \<le> int e"
proof -
  from assms have "q \<in> chunk s e ` {0 ..< (e - s + 99) div 100}"
    by (simp only: chunks_def set_map set_upt)
  then obtain k where "k \<in> {0 ..< (e - s + 99) div 100}" and q: "q = chunk s e k" by blast
  then have k: "k < (e - s + 99) div 100" by (simp only: atLeastLessThan_iff)
  from k have "100 * k + 100 \<le> e - s + 99" by simp
  then have "s + 100 * k < e" by simp
  then show ?thesis by (simp add: q chunk_def min_def)
qed

text \<open>
  On the nil channel the backfill does not even reach its first query when the history
  of the main subscription holds a log that parses.
\<close>

lemma backfill_nil_blocks:
  assumes "List.map_filter parse history \<noteq> []"
  shows "backfill e latestBlock Q parse history NilChan = Some ([], None)"
  using assms by (simp add: backfill_def consumeHistroy_NilChan)



section \<open>Properties of the lookup API\<close>

lemma ParseInt_0: "ParseInt ''0'' = (0, False)"
  by (simp add: ParseInt_def ParseUint_def isDigit_def Let_def)

text \<open>
  A run of digits beyond the unsigned range is a range error even when a byte that is
  not a digit follows; a byte that is not a digit before that is a syntax error.
\<close>

lemma ParseInt_examples:
  "ParseInt ''-12'' = (-12, False)"
  "ParseInt ''4x'' = (0, True)"
  "ParseInt ''9223372036854775808'' = (9223372036854775807, True)"
  "ParseInt ''99999999999999999999x'' = (9223372036854775807, True)"
  by (simp_all add: ParseInt_def ParseUint_def isDigit_def Let_def)

lemma getTxByHash_no_domain:
  "getTxByHash state txHash [] =
     (case state txHash of
        Some tx \<Rightarrow> Returned [(200, MsgsBody (Msgs tx))]
      | None \<Rightarrow> Returned [(404, MessageBody ''message not found'')])"
  by (simp add: getTxByHash_def ParseInt_def split: option.splits)

lemma getTxByHash_absent:
  assumes "state txHash = None" and "domain \<noteq> []"
  shows "\<exists>written. getTxByHash state txHash domain = Panicked written"
  using assms by (simp add: getTxByHash_def Let_def split: prod.splits)

text \<open>
  Claim C8, evaluated. With an empty state map, the request for \<open>/tx/0xabc?domain=0\<close>
  panics on the nil TxState before any response is written; the same request without
  the domain parameter gets the 404 response.
\<close>

theorem C8_absent_tx_with_domain:
  "getTxByHash Map.empty ''0xabc'' ''0'' = Panicked []
   \<and> getTxByHash Map.empty ''0xabc'' [] = Returned [(404, MessageBody ''message not found'')]"
  by (simp add: getTxByHash_def ParseInt_0 getTxByHash_no_domain)


end
